theory Spec2Isabelle
  imports Complex_Main
begin

section \<open>Numbers and nodes\<close>

text \<open>
  A JavaScript number is modelled as a real or the not-a-number value. Rounding and the
  infinities are left out. A numeric field that was never assigned is read as \<open>NaN\<close>:
  the code below only does arithmetic, ordering comparisons and truthiness tests on such
  fields, and there \<open>undefined\<close> and \<open>NaN\<close> behave alike.
\<close>

datatype num = NaN | Num real

fun nadd :: "num \<Rightarrow> num \<Rightarrow> num" where
  "nadd (Num a) (Num b) = Num (a + b)"
| "nadd _ _ = NaN"

fun nsub :: "num \<Rightarrow> num \<Rightarrow> num" where
  "nsub (Num a) (Num b) = Num (a - b)"
| "nsub _ _ = NaN"

fun nmul :: "num \<Rightarrow> num \<Rightarrow> num" where
  "nmul (Num a) (Num b) = Num (a * b)"
| "nmul _ _ = NaN"

fun ndiv :: "num \<Rightarrow> num \<Rightarrow> num" where
  "ndiv (Num a) (Num b) = (if b = 0 then NaN else Num (a / b))"
| "ndiv _ _ = NaN"

fun nabs :: "num \<Rightarrow> num" where
  "nabs (Num a) = Num \<bar>a\<bar>"
| "nabs NaN = NaN"

text \<open>\<open>a < b\<close> and \<open>a > b\<close>: false as soon as one side is not a number.\<close>

fun nlt :: "num \<Rightarrow> num \<Rightarrow> bool" where
  "nlt (Num a) (Num b) = (a < b)"
| "nlt _ _ = False"

text \<open>\<open>a === b\<close> on numbers: \<open>NaN\<close> is equal to nothing.\<close>

fun neq :: "num \<Rightarrow> num \<Rightarrow> bool" where
  "neq (Num a) (Num b) = (a = b)"
| "neq _ _ = False"

text \<open>Truthiness of a number: \<open>0\<close> and \<open>NaN\<close> are falsy.\<close>

fun truthy :: "num \<Rightarrow> bool" where
  "truthy (Num a) = (a \<noteq> 0)"
| "truthy NaN = False"

text \<open>A boolean used as a number.\<close>

definition bnum :: "bool \<Rightarrow> num" where
  "bnum b = (if b then Num 1 else Num 0)"

text \<open>
  An option flag that the caller may leave out: \<open>None\<close> is \<open>undefined\<close>. As a
  condition it is falsy, as a number it is \<open>NaN\<close>.
\<close>

type_synonym flag = "bool option"

definition ftruthy :: "flag \<Rightarrow> bool" where
  "ftruthy b = (b = Some True)"

definition fnum :: "flag \<Rightarrow> num" where
  "fnum b = (case b of None \<Rightarrow> NaN | Some v \<Rightarrow> bnum v)"

type_synonym coord = "int \<times> int"

text \<open>
  A node object. Objects live in a store and are referred to by address; a grid uses the
  cell coordinates as the address of the cell's node. \<open>n_parent\<close> is the address of
  the parent object, \<open>None\<close> when the field is \<open>undefined\<close>. \<open>n_direction\<close> is
  the encoded direction \<open>0..3\<close> read by the tie resolver, \<open>None\<close> when unset.
\<close>

record node =
  n_x :: int
  n_y :: int
  n_walkable :: bool
  n_g :: num
  n_h :: num
  n_f :: num
  n_opened :: bool
  n_closed :: bool
  n_parent :: "coord option"
  n_lastTurn :: bool
  n_lastTurnX :: num
  n_lastTurnY :: num
  n_direction :: "int option"

type_synonym store = "coord \<Rightarrow> node"

text \<open>
  Modelled from the spec: the Node constructor of the grid collaborator, which is not part
  of the sources. A new node has its coordinates and its walkability; every search-scoped
  field is unset.
\<close>

definition Node :: "int \<Rightarrow> int \<Rightarrow> bool \<Rightarrow> node" where
  "Node x y w =
     \<lparr>n_x = x, n_y = y, n_walkable = w, n_g = NaN, n_h = NaN, n_f = NaN,
      n_opened = False, n_closed = False, n_parent = None, n_lastTurn = False,
      n_lastTurnX = NaN, n_lastTurnY = NaN, n_direction = None\<rparr>"

datatype error = TypeError | ReferenceError

section \<open>Util: backtrace\<close>

text \<open>
  \<open>while (node.parent) { node = node.parent; path.push([node.x, node.y]); }\<close>.
  The loop does not end on a cyclic parent chain, so it is a partial function.
\<close>

partial_function (option) backtrace_loop :: "store \<Rightarrow> node \<Rightarrow> coord list \<Rightarrow> coord list option" where
  "backtrace_loop st nd path =
     (case n_parent nd of
        None \<Rightarrow> Some path
      | Some p \<Rightarrow> backtrace_loop st (st p) (path @ [(n_x (st p), n_y (st p))]))"

definition backtrace :: "store \<Rightarrow> node \<Rightarrow> coord list option" where
  "backtrace st nd = map_option rev (backtrace_loop st nd [(n_x nd, n_y nd)])"

text \<open>
  \<open>chain st nd d r\<close>: following the parent links from \<open>nd\<close> reaches, after \<open>d\<close>
  steps, the node \<open>r\<close> that has no parent.
\<close>

inductive chain :: "store \<Rightarrow> node \<Rightarrow> nat \<Rightarrow> node \<Rightarrow> bool" where
  chain_root: "n_parent nd = None \<Longrightarrow> chain st nd 0 nd"
| chain_step: "n_parent nd = Some p \<Longrightarrow> chain st (st p) d r \<Longrightarrow> chain st nd (Suc d) r"

text \<open>
  \<open>chainList st nd d\<close>: the coordinates of \<open>nd\<close>, of its parent, of the parent of
  that one, and so on for \<open>d\<close> parent links, in this order, from the node towards the
  root.
\<close>

fun chainList :: "store \<Rightarrow> node \<Rightarrow> nat \<Rightarrow> coord list" where
  "chainList st nd 0 = [(n_x nd, n_y nd)]"
| "chainList st nd (Suc d) =
     (n_x nd, n_y nd) # (case n_parent nd of None \<Rightarrow> [] | Some p \<Rightarrow> chainList st (st p) d)"

section \<open>Util: bestPath\<close>

text \<open>
  A candidate is the deep copy of the end node made by \<open>structuredClone\<close>: the node
  together with the snapshot of the store in which its parent links are read.
\<close>

type_synonym candidate = "store \<times> node"

fun bestPath_loop :: "candidate \<Rightarrow> candidate list \<Rightarrow> candidate" where
  "bestPath_loop currentBestPath [] = currentBestPath"
| "bestPath_loop currentBestPath (p # ps) =
     bestPath_loop (if nlt (n_f (snd p)) (n_f (snd currentBestPath)) then p else currentBestPath) ps"

text \<open>\<open>paths[0]\<close> of an empty array is \<open>undefined\<close>, here \<open>None\<close>.\<close>

definition bestPath :: "candidate list \<Rightarrow> candidate option" where
  "bestPath paths = (case paths of [] \<Rightarrow> None | p # ps \<Rightarrow> Some (bestPath_loop p ps))"

section \<open>Util: resolveTies\<close>

text \<open>
  The first loop: \<open>j\<close> counts the candidates whose \<open>f\<close> is \<open>minFVal\<close>, and the
  loop stops with \<open>threeWayTie = true\<close> as soon as \<open>j > 2\<close>.
\<close>

fun threeWayTie :: "store \<Rightarrow> num \<Rightarrow> coord list \<Rightarrow> nat \<Rightarrow> bool" where
  "threeWayTie st minFVal [] j = False"
| "threeWayTie st minFVal (c # cs) j =
     (let j' = (if neq minFVal (n_f (st c)) then j + 1 else j)
      in if j' > 2 then True else threeWayTie st minFVal cs j')"

text \<open>The tests of the two pair searches, on \<open>neighborsAddedToList[i]\<close> and \<open>[j]\<close>.\<close>

definition tied3 :: "num \<Rightarrow> node \<Rightarrow> node \<Rightarrow> bool" where
  "tied3 minFVal a b \<longleftrightarrow>
     neq (n_f a) (n_f b) \<and> neq (n_f a) minFVal \<and> (n_x a = n_x b \<or> n_y a = n_y b)"

definition tied2 :: "num \<Rightarrow> node \<Rightarrow> node \<Rightarrow> bool" where
  "tied2 minFVal a b \<longleftrightarrow> neq (n_f a) (n_f b) \<and> neq (n_f a) minFVal"

text \<open>The inner loop over \<open>j\<close> and the outer loop over \<open>i\<close>: the first pair that passes.\<close>

fun findB :: "(node \<Rightarrow> node \<Rightarrow> bool) \<Rightarrow> store \<Rightarrow> coord \<Rightarrow> coord list \<Rightarrow> coord option" where
  "findB tied st a [] = None"
| "findB tied st a (b # bs) = (if tied (st a) (st b) then Some b else findB tied st a bs)"

fun findPair :: "(node \<Rightarrow> node \<Rightarrow> bool) \<Rightarrow> store \<Rightarrow> coord list \<Rightarrow> (coord \<times> coord) option" where
  "findPair tied st [] = None"
| "findPair tied st (a # cs) =
     (case findB tied st a cs of Some b \<Rightarrow> Some (a, b) | None \<Rightarrow> findPair tied st cs)"

text \<open>The six tests on the directions of the pair; a later test overwrites \<open>tieCase\<close>.\<close>

definition dirs :: "node \<Rightarrow> node \<Rightarrow> int \<Rightarrow> int \<Rightarrow> bool" where
  "dirs a b p q \<longleftrightarrow>
     (n_direction a = Some p \<and> n_direction b = Some q) \<or>
     (n_direction a = Some q \<and> n_direction b = Some p)"

definition tieCase :: "node \<Rightarrow> node \<Rightarrow> nat option" where
  "tieCase a b =
     (let t0 = (if dirs a b 0 1 then Some 0 else None);
          t1 = (if dirs a b 0 2 then Some 1 else t0);
          t2 = (if dirs a b 0 3 then Some 2 else t1);
          t3 = (if dirs a b 1 2 then Some 3 else t2);
          t4 = (if dirs a b 3 1 then Some 4 else t3);
          t5 = (if dirs a b 2 3 then Some 5 else t4)
      in t5)"

text \<open>
  \<open>preferences[tieCase]\<close>: reading an index of \<open>undefined\<close> throws, an index past the
  end of the array is \<open>undefined\<close>.
\<close>

definition preferenceAt :: "int option list option \<Rightarrow> nat \<Rightarrow> error + int option" where
  "preferenceAt preferences k =
     (case preferences of
        None \<Rightarrow> Inl TypeError
      | Some ps \<Rightarrow> Inr (if k < length ps then ps ! k else None))"

text \<open>
  The body shared by the six cases of the \<open>switch\<close>:
  \<open>if (neighborA.direction === preferences[tieCase]) neighborA.g -= TIE_BREAKER;
   else if (neighborB.direction === preferences[tieCase]) neighborB.g -= TIE_BREAKER;\<close>
\<close>

definition subtractTieBreaker :: "store \<Rightarrow> coord \<Rightarrow> num \<Rightarrow> store" where
  "subtractTieBreaker st a tb = st(a := (st a)\<lparr>n_g := nsub (n_g (st a)) tb\<rparr>)"

definition preferCase :: "store \<Rightarrow> coord \<Rightarrow> coord \<Rightarrow> num \<Rightarrow> int option list option \<Rightarrow> nat \<Rightarrow> error + store" where
  "preferCase st a b tb preferences k =
     (case preferenceAt preferences k of
        Inl e \<Rightarrow> Inl e
      | Inr pref \<Rightarrow>
          Inr (if n_direction (st a) = pref then subtractTieBreaker st a tb
               else if n_direction (st b) = pref then subtractTieBreaker st b tb
               else st))"

text \<open>
  \<open>resolveTies\<close> reads the global variable \<open>turnPenalty\<close>, which it does not declare:
  the first argument is the value of that global, \<open>None\<close> when no such global exists.
  The candidates are given by their addresses in the store, and the updated store is
  returned.
\<close>

definition resolveTies :: "num option \<Rightarrow> store \<Rightarrow> coord list \<Rightarrow> num \<Rightarrow> int option list option \<Rightarrow> error + store" where
  "resolveTies turnPenalty st neighborsAddedToList minFVal preferences =
     (case turnPenalty of
        None \<Rightarrow> Inl ReferenceError
      | Some tp \<Rightarrow>
          (let TIE_BREAKER = ndiv tp (Num 100);
               pair = (if threeWayTie st minFVal neighborsAddedToList 0
                       then findPair (tied3 minFVal) st neighborsAddedToList
                       else findPair (tied2 minFVal) st neighborsAddedToList)
           in case pair of
                None \<Rightarrow> Inr st
              | Some (neighborA, neighborB) \<Rightarrow>
                  (case tieCase (st neighborA) (st neighborB) of
                     None \<Rightarrow> Inr st
                   | Some k \<Rightarrow> preferCase st neighborA neighborB TIE_BREAKER preferences k)))"

section \<open>Util: interpolate, expandPath, smoothenPath, compressPath\<close>

text \<open>
  The body of \<open>while (true)\<close> in \<open>interpolate\<close>. Both tests read \<open>e2\<close>, computed
  before either update. For an arbitrary error term the loop need not end.
\<close>

partial_function (option) interpolate_loop ::
  "int \<Rightarrow> int \<Rightarrow> int \<Rightarrow> int \<Rightarrow> int \<Rightarrow> int \<Rightarrow> int \<Rightarrow> int \<Rightarrow> int \<Rightarrow> coord list \<Rightarrow> coord list option" where
  "interpolate_loop x1 y1 dx dy sx sy x0 y0 err line =
     (if x0 = x1 \<and> y0 = y1 then Some (line @ [(x0, y0)])
      else interpolate_loop x1 y1 dx dy sx sy
             (if 2 * err > - dy then x0 + sx else x0)
             (if 2 * err < dx then y0 + sy else y0)
             ((if 2 * err > - dy then err - dy else err) + (if 2 * err < dx then dx else 0))
             (line @ [(x0, y0)]))"

definition interpolate :: "int \<Rightarrow> int \<Rightarrow> int \<Rightarrow> int \<Rightarrow> coord list option" where
  "interpolate x0 y0 x1 y1 =
     (let dx = \<bar>x1 - x0\<bar>; dy = \<bar>y1 - y0\<bar>;
          sx = (if x0 < x1 then 1 else -1);
          sy = (if y0 < y1 then 1 else -1);
          err = dx - dy
      in interpolate_loop x1 y1 dx dy sx sy x0 y0 err [])"

text \<open>The loop of \<open>expandPath\<close> over the consecutive pairs of the path.\<close>

fun expand_loop :: "coord list \<Rightarrow> coord list \<Rightarrow> coord list option" where
  "expand_loop (coord0 # coord1 # rest) expanded =
     (case interpolate (fst coord0) (snd coord0) (fst coord1) (snd coord1) of
        None \<Rightarrow> None
      | Some interpolated \<Rightarrow> expand_loop (coord1 # rest) (expanded @ butlast interpolated))"
| "expand_loop path expanded = Some expanded"

definition expandPath :: "coord list \<Rightarrow> coord list option" where
  "expandPath path =
     (if length path < 2 then Some []
      else map_option (\<lambda>expanded. expanded @ [last path]) (expand_loop path []))"

text \<open>
  Modelled from the spec: the grid collaborator, which is not part of the sources. A grid
  has a width, a height and one node per cell; \<open>isWalkableAt\<close> is false outside the
  grid.
\<close>

record grid =
  width :: int
  height :: int
  nodes :: store

definition isInside :: "grid \<Rightarrow> int \<Rightarrow> int \<Rightarrow> bool" where
  "isInside gr x y \<longleftrightarrow> 0 \<le> x \<and> x < width gr \<and> 0 \<le> y \<and> y < height gr"

definition isWalkableAt :: "grid \<Rightarrow> int \<Rightarrow> int \<Rightarrow> bool" where
  "isWalkableAt gr x y \<longleftrightarrow> isInside gr x y \<and> n_walkable (nodes gr (x, y))"

text \<open>The inner loop of \<open>smoothenPath\<close>: is a cell of \<open>line\<close> from index 1 on not walkable?\<close>

definition blocked :: "grid \<Rightarrow> coord list \<Rightarrow> bool" where
  "blocked gr line = list_ex (\<lambda>testCoord. \<not> isWalkableAt gr (fst testCoord) (snd testCoord)) (tl line)"

text \<open>
  The outer loop of \<open>smoothenPath\<close>, from \<open>i = 2\<close>: \<open>s\<close> is the current start
  \<open>(sx, sy)\<close>, \<open>prev\<close> is \<open>path[i - 1]\<close>.
\<close>

fun smoothen_loop :: "grid \<Rightarrow> coord \<Rightarrow> coord \<Rightarrow> coord list \<Rightarrow> coord list \<Rightarrow> coord list option" where
  "smoothen_loop gr s prev [] newPath = Some newPath"
| "smoothen_loop gr s prev (coord # rest) newPath =
     (case interpolate (fst s) (snd s) (fst coord) (snd coord) of
        None \<Rightarrow> None
      | Some line \<Rightarrow>
          if blocked gr line then smoothen_loop gr prev coord rest (newPath @ [prev])
          else smoothen_loop gr s coord rest newPath)"

text \<open>\<open>path[0][0]\<close> throws on an empty path.\<close>

definition smoothenPath :: "grid \<Rightarrow> coord list \<Rightarrow> (error + coord list) option" where
  "smoothenPath gr path =
     (case path of
        [] \<Rightarrow> Some (Inl TypeError)
      | p0 # ps \<Rightarrow>
          map_option (\<lambda>newPath. Inr (newPath @ [last path]))
            (case ps of
               [] \<Rightarrow> Some [p0]
             | p1 # rest \<Rightarrow> smoothen_loop gr p0 p1 rest [p0]))"

text \<open>
  \<open>sq = Math.sqrt(dx*dx + dy*dy); dx /= sq; dy /= sq\<close>; \<open>0 / 0\<close> is \<open>NaN\<close>. The
  square root and the division are those of the real numbers, where the code has those of
  the doubles. The two give the same comparisons of directions for steps between adjacent
  cells, whose components are 0, 1 or -1. For two longer steps along one line the doubles
  may differ in the last bit where the reals are equal, and then the code keeps a point
  that this \<open>compressPath\<close> drops.
\<close>

definition normalize :: "int \<Rightarrow> int \<Rightarrow> num \<times> num" where
  "normalize dx dy =
     (let sq = sqrt (real_of_int (dx * dx + dy * dy))
      in (ndiv (Num (real_of_int dx)) (Num sq), ndiv (Num (real_of_int dy)) (Num sq)))"

text \<open>
  The loop of \<open>compressPath\<close>, from \<open>i = 2\<close>: \<open>p\<close> is \<open>(px, py)\<close>, \<open>d\<close> is the
  normalized direction \<open>(dx, dy)\<close>. \<open>dx !== ldx\<close> is the negation of \<open>===\<close>.
\<close>

fun compress_loop :: "coord \<Rightarrow> num \<times> num \<Rightarrow> coord list \<Rightarrow> coord list \<Rightarrow> coord list" where
  "compress_loop p d [] compressed = compressed @ [p]"
| "compress_loop p d (q # rest) compressed =
     (let d' = normalize (fst q - fst p) (snd q - snd p)
      in compress_loop q d' rest
           (if \<not> neq (fst d') (fst d) \<or> \<not> neq (snd d') (snd d) then compressed @ [p]
            else compressed))"

definition compressPath :: "coord list \<Rightarrow> coord list" where
  "compressPath path =
     (case path of
        s # p # q # rest \<Rightarrow>
          compress_loop p (normalize (fst p - fst s) (snd p - snd s)) (q # rest) [s]
      | _ \<Rightarrow> path)"

section \<open>The grid and open list collaborators\<close>

text \<open>
  Modelled from the spec: the diagonal movement policies and the operations of the grid
  collaborator, which are not part of the sources. A node lookup fails fast outside the
  grid. \<open>getNeighbors\<close> lists the walkable orthogonal neighbours (up, right, down,
  left; up is \<open>y - 1\<close>) and then, as far as the policy allows, the walkable diagonal
  ones.
\<close>

datatype DiagonalMovement = Always | Never | IfAtMostOneObstacle | OnlyWhenNoObstacles

definition getNodeAt :: "grid \<Rightarrow> int \<Rightarrow> int \<Rightarrow> error + coord" where
  "getNodeAt gr x y = (if isInside gr x y then Inr (x, y) else Inl TypeError)"

definition setWalkableAt :: "grid \<Rightarrow> int \<Rightarrow> int \<Rightarrow> bool \<Rightarrow> error + grid" where
  "setWalkableAt gr x y w =
     (if isInside gr x y
      then Inr (gr\<lparr>nodes := (nodes gr)((x, y) := (nodes gr (x, y))\<lparr>n_walkable := w\<rparr>)\<rparr>)
      else Inl TypeError)"

definition diagonalAllowed :: "DiagonalMovement \<Rightarrow> bool \<Rightarrow> bool \<Rightarrow> bool" where
  "diagonalAllowed dm a b =
     (case dm of
        Never \<Rightarrow> False
      | OnlyWhenNoObstacles \<Rightarrow> a \<and> b
      | IfAtMostOneObstacle \<Rightarrow> a \<or> b
      | Always \<Rightarrow> True)"

definition cellIf :: "grid \<Rightarrow> bool \<Rightarrow> int \<Rightarrow> int \<Rightarrow> coord list" where
  "cellIf gr allowed x y = (if allowed \<and> isWalkableAt gr x y then [(x, y)] else [])"

definition getNeighbors :: "grid \<Rightarrow> node \<Rightarrow> DiagonalMovement \<Rightarrow> coord list" where
  "getNeighbors gr nd dm =
     (let x = n_x nd; y = n_y nd;
          s0 = isWalkableAt gr x (y - 1);
          s1 = isWalkableAt gr (x + 1) y;
          s2 = isWalkableAt gr x (y + 1);
          s3 = isWalkableAt gr (x - 1) y
      in cellIf gr True x (y - 1) @ cellIf gr True (x + 1) y @
         cellIf gr True x (y + 1) @ cellIf gr True (x - 1) y @
         cellIf gr (diagonalAllowed dm s3 s0) (x - 1) (y - 1) @
         cellIf gr (diagonalAllowed dm s0 s1) (x + 1) (y - 1) @
         cellIf gr (diagonalAllowed dm s1 s2) (x + 1) (y + 1) @
         cellIf gr (diagonalAllowed dm s2 s3) (x - 1) (y + 1))"

text \<open>
  Modelled from the spec: \<open>cleanUp(dirtyCoords, exceptCoord)\<close> resets the search-scoped
  fields of the listed nodes to the unset state, except for the protected coordinate and
  the start node. \<open>findPath\<close> lists the coordinates flat, \<open>y\<close> before \<open>x\<close>, the
  start node first.
\<close>

definition resetNode :: "node \<Rightarrow> node" where
  "resetNode nd =
     nd\<lparr>n_g := NaN, n_h := NaN, n_f := NaN, n_opened := False, n_closed := False,
        n_parent := None, n_lastTurn := False, n_lastTurnX := NaN, n_lastTurnY := NaN\<rparr>"

fun cleanUp_loop :: "store \<Rightarrow> int list \<Rightarrow> coord option \<Rightarrow> store" where
  "cleanUp_loop st (y # x # rest) exceptCoord =
     cleanUp_loop (if Some (x, y) = exceptCoord then st else st((x, y) := resetNode (st (x, y))))
       rest exceptCoord"
| "cleanUp_loop st rest exceptCoord = st"

definition cleanUp :: "grid \<Rightarrow> int list \<Rightarrow> coord option \<Rightarrow> grid" where
  "cleanUp gr dirtyNodes exceptCoord = gr\<lparr>nodes := cleanUp_loop (nodes gr) (drop 2 dirtyNodes) exceptCoord\<rparr>"

text \<open>
  Modelled from the spec: the open list, a min-priority queue of node addresses ordered
  by the comparator \<open>nodeA.f - nodeB.f\<close> that \<open>findPath\<close> gives it. \<open>push\<close> appends,
  \<open>pop\<close> removes the first node that no other node is smaller than, and \<open>updateItem\<close>
  has nothing to move since the keys are read from the store.
\<close>

definition cmpF :: "store \<Rightarrow> coord \<Rightarrow> coord \<Rightarrow> num" where
  "cmpF st nodeA nodeB = nsub (n_f (st nodeA)) (n_f (st nodeB))"

fun popMin :: "store \<Rightarrow> coord \<Rightarrow> coord list \<Rightarrow> coord" where
  "popMin st best [] = best"
| "popMin st best (c # cs) = popMin st (if nlt (cmpF st c best) (Num 0) then c else best) cs"

definition pop :: "store \<Rightarrow> coord list \<Rightarrow> coord \<times> coord list" where
  "pop st openList = (let m = popMin st (hd openList) (tl openList) in (m, remove1 m openList))"

text \<open>
  Modelled from the spec: the Manhattan and octile heuristics, the defaults of the
  constructor.
\<close>

definition manhattan :: "num \<Rightarrow> num \<Rightarrow> num" where
  "manhattan dx dy = nadd dx dy"

definition octile :: "num \<Rightarrow> num \<Rightarrow> num" where
  "octile dx dy =
     (let F = Num (sqrt 2 - 1)
      in if nlt dx dy then nadd (nmul F dx) dy else nadd (nmul F dy) dx)"

section \<open>AStarFinder: the constructor\<close>

text \<open>The option object; a field that the caller left out is \<open>None\<close>.\<close>

record options =
  o_allowDiagonal :: flag
  o_dontCrossCorners :: flag
  o_heuristic :: "(num \<Rightarrow> num \<Rightarrow> num) option"
  o_weight :: "num option"
  o_diagonalMovement :: "DiagonalMovement option"
  o_avoidStaircase :: flag
  o_turnPenalty :: "num option"
  o_useMomentum :: flag
  o_momentum :: "num option"
  o_breakTies :: flag
  o_ignoreStartTies :: flag
  o_preferences :: "int option list option"

text \<open>\<open>new AStarFinder()\<close> and \<open>new AStarFinder({})\<close>: \<open>opt = opt || {}\<close>.\<close>

definition noOptions :: options where
  "noOptions =
     \<lparr>o_allowDiagonal = None, o_dontCrossCorners = None, o_heuristic = None, o_weight = None,
      o_diagonalMovement = None, o_avoidStaircase = None, o_turnPenalty = None,
      o_useMomentum = None, o_momentum = None, o_breakTies = None, o_ignoreStartTies = None,
      o_preferences = None\<rparr>"

record finder =
  allowDiagonal :: flag
  dontCrossCorners :: flag
  heuristic :: "num \<Rightarrow> num \<Rightarrow> num"
  weight :: num
  diagonalMovement :: DiagonalMovement
  avoidStaircase :: flag
  turnPenalty :: num
  useMomentum :: flag
  momentum :: num
  breakTies :: flag
  ignoreStartTies :: flag
  preferences :: "int option list option"
  maxIterations :: num

text \<open>\<open>v || d\<close> on an optional number: \<open>undefined\<close>, \<open>0\<close> and \<open>NaN\<close> give \<open>d\<close>.\<close>

definition orNum :: "num option \<Rightarrow> num \<Rightarrow> num" where
  "orNum v d = (case v of None \<Rightarrow> d | Some n \<Rightarrow> if truthy n then n else d)"

text \<open>
  \<open>a && !b\<close> on flags: a falsy \<open>a\<close> is the value (\<open>undefined\<close> stays \<open>undefined\<close>),
  otherwise the boolean \<open>!b\<close>.
\<close>

definition andNot :: "flag \<Rightarrow> flag \<Rightarrow> flag" where
  "andNot a b = (if ftruthy a then Some (\<not> ftruthy b) else a)"

definition AStarFinder :: "options \<Rightarrow> finder" where
  "AStarFinder opt =
     (let dm = (case o_diagonalMovement opt of
                  Some d \<Rightarrow> d
                | None \<Rightarrow>
                    if \<not> ftruthy (o_allowDiagonal opt) then Never
                    else if ftruthy (o_dontCrossCorners opt) then OnlyWhenNoObstacles
                    else IfAtMostOneObstacle)
      in \<lparr>allowDiagonal = o_allowDiagonal opt,
          dontCrossCorners = o_dontCrossCorners opt,
          heuristic = (case o_heuristic opt of
                         Some hf \<Rightarrow> hf
                       | None \<Rightarrow> if dm = Never then manhattan else octile),
          weight = orNum (o_weight opt) (Num 1),
          diagonalMovement = dm,
          avoidStaircase = o_avoidStaircase opt,
          turnPenalty = orNum (o_turnPenalty opt) (Num (1 / 1000)),
          useMomentum = o_useMomentum opt,
          momentum = orNum (o_momentum opt) (Num (1 / 10000)),
          breakTies = o_breakTies opt,
          ignoreStartTies = o_ignoreStartTies opt,
          preferences = o_preferences opt,
          maxIterations = nadd (Num 2) (fnum (andNot (o_breakTies opt) (o_ignoreStartTies opt)))\<rparr>)"

section \<open>AStarFinder: findPath\<close>

text \<open>
  The cost shaping of \<open>if (avoidStaircase) { ... }\<close> for the current node at address
  \<open>na\<close> and its neighbour at \<open>nba\<close>, given the step cost \<open>ng\<close> so far. It returns
  the store, in which the last-turn fields are written whether or not the neighbour is
  relaxed afterwards, and the shaped cost. \<open>if (node.lastTurn = true)\<close> is an
  assignment, and its branch is always taken.
\<close>

definition turned :: "store \<Rightarrow> coord \<Rightarrow> coord \<Rightarrow> bool" where
  "turned st na nba =
     (case n_parent (st na) of
        None \<Rightarrow> False
      | Some pa \<Rightarrow>
          n_x (st na) - n_x (st pa) \<noteq> n_x (st nba) - n_x (st na) \<or>
          n_y (st na) - n_y (st pa) \<noteq> n_y (st nba) - n_y (st na))"

definition recordTurn :: "store \<Rightarrow> coord \<Rightarrow> coord \<Rightarrow> store" where
  "recordTurn st na nba =
     (if turned st na nba
      then st(nba := (st nba)\<lparr>n_lastTurn := True,
                               n_lastTurnX := Num (real_of_int (n_x (st na))),
                               n_lastTurnY := Num (real_of_int (n_y (st na)))\<rparr>)
      else (let st' = st(na := (st na)\<lparr>n_lastTurn := True\<rparr>)
            in st'(nba := (st' nba)\<lparr>n_lastTurnX := n_lastTurnX (st' na),
                                    n_lastTurnY := n_lastTurnY (st' na)\<rparr>)))"

definition shapeCost :: "finder \<Rightarrow> store \<Rightarrow> coord \<Rightarrow> coord \<Rightarrow> num \<Rightarrow> store \<times> num" where
  "shapeCost fd st na nba ng =
     (let t = turned st na nba;
          ng1 = nadd ng (nmul (turnPenalty fd) (bnum t));
          st1 = recordTurn st na nba;
          ng2 = nsub ng1 (nmul (nmul (momentum fd) (bnum (\<not> t))) (fnum (useMomentum fd)));
          ng3 = nadd ng2
                  (nmul (nmul (nmul (momentum fd) (bnum t))
                          (heuristic fd
                             (nabs (nsub (Num (real_of_int (n_x (st1 na)))) (n_lastTurnX (st1 nba))))
                             (nabs (nsub (Num (real_of_int (n_y (st1 na)))) (n_lastTurnY (st1 nba))))))
                        (fnum (useMomentum fd)))
      in (st1, ng3))"

text \<open>The tentative cost \<open>ng\<close> of lines 229 to 260, with the store after the shaping.\<close>

definition tentative :: "finder \<Rightarrow> store \<Rightarrow> coord \<Rightarrow> coord \<Rightarrow> store \<times> num" where
  "tentative fd st na nba =
     (let ng = nadd (n_g (st na))
                 (if n_x (st nba) - n_x (st na) = 0 \<or> n_y (st nba) - n_y (st na) = 0
                  then Num 1 else Num (sqrt 2))
      in if ftruthy (avoidStaircase fd) then shapeCost fd st na nba ng else (st, ng))"

text \<open>The variables of one pass of \<open>for (i = 0, l = neighbors.length; i < l; ++i)\<close>.\<close>

record relax =
  r_nodes :: store
  r_openList :: "coord list"
  r_neighborsAddedToList :: "coord list"
  r_prevFVal :: "num option"
  r_minFVal :: num
  r_dirtyNodes :: "int list"

text \<open>The body of the loop over the neighbours, lines 218 to 292.\<close>

definition relaxNeighbor :: "finder \<Rightarrow> int \<Rightarrow> int \<Rightarrow> coord \<Rightarrow> relax \<Rightarrow> coord \<Rightarrow> relax" where
  "relaxNeighbor fd endX endY na rs nba =
     (if n_closed (r_nodes rs nba) then rs
      else
        (let x = n_x (r_nodes rs nba); y = n_y (r_nodes rs nba);
             st1 = fst (tentative fd (r_nodes rs) na nba);
             ng = snd (tentative fd (r_nodes rs) na nba);
             neighbor = st1 nba
         in if \<not> n_opened neighbor \<or> nlt ng (n_g neighbor)
            then
              (let h' = (if truthy (n_h neighbor) then n_h neighbor
                         else nmul (weight fd)
                                (heuristic fd (Num (real_of_int \<bar>x - endX\<bar>)) (Num (real_of_int \<bar>y - endY\<bar>))));
                   f' = nadd ng h';
                   relaxed = neighbor\<lparr>n_g := ng, n_h := h', n_f := f', n_parent := Some na\<rparr>;
                   minF' = (if (case r_prevFVal rs of None \<Rightarrow> True | Some pv \<Rightarrow> nlt f' pv)
                            then f' else r_minFVal rs)
               in if \<not> n_opened neighbor
                  then rs\<lparr>r_nodes := st1(nba := relaxed\<lparr>n_opened := True\<rparr>),
                          r_openList := r_openList rs @ [nba],
                          r_neighborsAddedToList := r_neighborsAddedToList rs @ [nba],
                          r_prevFVal := Some f',
                          r_minFVal := minF',
                          r_dirtyNodes := r_dirtyNodes rs @ [y, x]\<rparr>
                  else rs\<lparr>r_nodes := st1(nba := relaxed),
                          r_prevFVal := Some f',
                          r_minFVal := minF'\<rparr>)
            else rs\<lparr>r_nodes := st1\<rparr>))"

text \<open>
  Which of the two calls of \<open>resolveTies\<close> after the loop is reached, lines 296 to 306:
  \<open>Some 1\<close> for the call under \<open>breakTies && ignoreStartTies && !atStartNode\<close>,
  \<open>Some 2\<close> for the call under \<open>else if (breakTies)\<close>, \<open>None\<close> when neither is.
  Both calls name \<open>resolveTies\<close> bare. \<open>AStarFinder.js\<close> requires \<open>Heap\<close>,
  \<open>Util\<close>, \<open>Heuristic\<close> and \<open>DiagonalMovement\<close> and declares no \<open>resolveTies\<close>,
  and nothing in the repository makes it a global, so reading the name throws a
  ReferenceError before the function of \<open>Util\<close> is entered.
\<close>

definition tieCall :: "finder \<Rightarrow> bool \<Rightarrow> nat option" where
  "tieCall fd atStartNode =
     (if ftruthy (breakTies fd) \<and> ftruthy (ignoreStartTies fd) \<and> \<not> atStartNode then Some 1
      else if ftruthy (breakTies fd) then Some 2
      else None)"

definition breakTiesAfter :: "finder \<Rightarrow> bool \<Rightarrow> store \<Rightarrow> error + store" where
  "breakTiesAfter fd atStartNode st =
     (case tieCall fd atStartNode of
        None \<Rightarrow> Inr st
      | Some site \<Rightarrow> Inl ReferenceError)"

text \<open>The variables of \<open>findPath\<close> that live across the passes of its \<open>while\<close> loop.\<close>

record search =
  s_grid :: grid
  s_openList :: "coord list"
  s_minFVal :: num
  s_atStartNode :: bool
  s_dirtyNodes :: "int list"
  s_paths :: "candidate list option"
  s_iterations :: nat

text \<open>
  Lines 105 to 162: the entry of \<open>findPath\<close> up to the loop. The last three parameters
  are \<open>undefined\<close> (\<open>None\<close>) in a caller's call and set in the call of \<open>findPath\<close>
  to itself.
\<close>

definition findPath_init ::
  "int \<Rightarrow> int \<Rightarrow> int \<Rightarrow> int \<Rightarrow> grid \<Rightarrow> candidate list option \<Rightarrow> coord option \<Rightarrow> nat option \<Rightarrow> error + search" where
  "findPath_init startX startY endX endY gr paths firstTileTaken iterations =
     (case getNodeAt gr startX startY of
        Inl e \<Rightarrow> Inl e
      | Inr startNode \<Rightarrow>
     (case getNodeAt gr endX endY of
        Inl e \<Rightarrow> Inl e
      | Inr endNode \<Rightarrow>
     (case (if paths \<noteq> None
            then (case firstTileTaken of
                    None \<Rightarrow> Inl TypeError
                  | Some t \<Rightarrow> setWalkableAt gr (fst t) (snd t) False)
            else Inr gr) of
        Inl e \<Rightarrow> Inl e
      | Inr gr1 \<Rightarrow>
          (let fresh = (iterations = None \<or> iterations = Some 0);
               st = (nodes gr1)(startNode := (nodes gr1 startNode)\<lparr>n_g := Num 0, n_f := Num 0, n_opened := True\<rparr>)
           in Inr \<lparr>s_grid = gr1\<lparr>nodes := st\<rparr>,
                   s_openList = [startNode],
                   s_minFVal = NaN,
                   s_atStartNode = True,
                   s_dirtyNodes = [n_y (st startNode), n_x (st startNode)],
                   s_paths = (if fresh then Some [] else paths),
                   s_iterations = (if fresh then 1 else the iterations)\<rparr>))))"

text \<open>
  Lines 312 to 321: the open list is empty. An array is truthy, also the empty one, so
  \<open>if(paths)\<close> is taken whenever \<open>paths\<close> is set. The call \<open>bestPath(paths)\<close> names
  \<open>bestPath\<close> bare, as the one at line 184 does (\<open>Util.backtrace\<close> on the next line
  is qualified): the name is bound nowhere, and reading it throws a ReferenceError.
\<close>

definition noPathFound :: "search \<Rightarrow> error + coord list" where
  "noPathFound s =
     (case s_paths s of
        Some paths \<Rightarrow> Inl ReferenceError
      | None \<Rightarrow> Inr [])"

text \<open>
  What one pass of the \<open>while\<close> loop does: it returns a result, goes on with the next
  pass, or does not return (\<open>backtrace\<close> on a cyclic parent chain). The call of
  \<open>findPath\<close> to itself at line 203 is the last action of the outer call, which returns
  its result as it is, so it is modelled as going on with the state that the entry of the
  inner call sets up.
\<close>

datatype pass = Return "error + coord list" | Continue search | Hang

text \<open>
  Lines 171 to 204: the popped node is the end node; \<open>st\<close> has it closed already. Under
  \<open>iterations > maxIterations\<close> the bare name \<open>bestPath\<close> is read, which throws.
\<close>

definition reachedEnd ::
  "finder \<Rightarrow> int \<Rightarrow> int \<Rightarrow> int \<Rightarrow> int \<Rightarrow> search \<Rightarrow> store \<Rightarrow> coord \<Rightarrow> pass" where
  "reachedEnd fd startX startY endX endY s st endNode =
     (case s_paths s of
        None \<Rightarrow> Return (Inl TypeError)
      | Some ps \<Rightarrow>
          (let iterations = s_iterations s + 1;
               paths = ps @ [(st, st endNode)]
           in if nlt (maxIterations fd) (Num (real iterations))
              then Return (Inl ReferenceError)
              else (case backtrace st (st endNode) of
                      None \<Rightarrow> Hang
                    | Some thisPath \<Rightarrow>
                        if length thisPath = 2 then Return (Inr thisPath)
                        else (let firstTileTaken = (if 1 < length thisPath then Some (thisPath ! 1) else None);
                                  gr = cleanUp ((s_grid s)\<lparr>nodes := st\<rparr>) (s_dirtyNodes s) firstTileTaken
                              in case findPath_init startX startY endX endY gr (Some paths)
                                        firstTileTaken (Some iterations) of
                                   Inl e \<Rightarrow> Return (Inl e)
                                 | Inr s' \<Rightarrow> Continue s'))))"

text \<open>
  Lines 207 to 293: the neighbours of the popped node at address \<open>na\<close> are relaxed, one
  pass of the \<open>for\<close> loop after the other.
\<close>

definition relaxNeighbors :: "finder \<Rightarrow> int \<Rightarrow> int \<Rightarrow> search \<Rightarrow> store \<Rightarrow> coord list \<Rightarrow> coord \<Rightarrow> relax" where
  "relaxNeighbors fd endX endY s st openList na =
     foldl (relaxNeighbor fd endX endY na)
       \<lparr>r_nodes = st, r_openList = openList, r_neighborsAddedToList = [],
        r_prevFVal = None, r_minFVal = s_minFVal s, r_dirtyNodes = s_dirtyNodes s\<rparr>
       (getNeighbors ((s_grid s)\<lparr>nodes := st\<rparr>) (st na) (diagonalMovement fd))"

text \<open>Lines 206 to 308: the popped node at address \<open>na\<close> is expanded.\<close>

definition expand :: "finder \<Rightarrow> int \<Rightarrow> int \<Rightarrow> search \<Rightarrow> store \<Rightarrow> coord list \<Rightarrow> coord \<Rightarrow> pass" where
  "expand fd endX endY s st openList na =
     (let rs = relaxNeighbors fd endX endY s st openList na
      in case breakTiesAfter fd (s_atStartNode s) (r_nodes rs) of
           Inl e \<Rightarrow> Return (Inl e)
         | Inr st' \<Rightarrow>
             Continue (s\<lparr>s_grid := (s_grid s)\<lparr>nodes := st'\<rparr>,
                         s_openList := r_openList rs,
                         s_minFVal := r_minFVal rs,
                         s_atStartNode := False,
                         s_dirtyNodes := r_dirtyNodes rs\<rparr>))"

definition findPath_pass ::
  "finder \<Rightarrow> int \<Rightarrow> int \<Rightarrow> int \<Rightarrow> int \<Rightarrow> search \<Rightarrow> pass" where
  "findPath_pass fd startX startY endX endY s =
     (if s_openList s = []
      then Return (noPathFound s)
      else
        (let na = fst (pop (nodes (s_grid s)) (s_openList s));
             openList = snd (pop (nodes (s_grid s)) (s_openList s));
             st = (nodes (s_grid s))(na := (nodes (s_grid s) na)\<lparr>n_closed := True\<rparr>)
         in if na = (endX, endY) then reachedEnd fd startX startY endX endY s st na
            else expand fd endX endY s st openList na))"

partial_function (option) findPath_loop ::
  "finder \<Rightarrow> int \<Rightarrow> int \<Rightarrow> int \<Rightarrow> int \<Rightarrow> search \<Rightarrow> (error + coord list) option" where
  "findPath_loop fd startX startY endX endY s =
     (case findPath_pass fd startX startY endX endY s of
        Return r \<Rightarrow> Some r
      | Hang \<Rightarrow> None
      | Continue s' \<Rightarrow> findPath_loop fd startX startY endX endY s')"

text \<open>
  \<open>finder.findPath(startX, startY, endX, endY, grid)\<close>. \<open>None\<close> is a search that does
  not return.
\<close>

definition findPath ::
  "finder \<Rightarrow> int \<Rightarrow> int \<Rightarrow> int \<Rightarrow> int \<Rightarrow> grid \<Rightarrow> (error + coord list) option" where
  "findPath fd startX startY endX endY gr =
     (case findPath_init startX startY endX endY gr None None None of
        Inl e \<Rightarrow> Some (Inl e)
      | Inr s \<Rightarrow> findPath_loop fd startX startY endX endY s)"

section \<open>Predicates on paths\<close>

text \<open>
  Two cells are adjacent when they differ by at most 1 in each axis; a raw path, as the
  search returns it, steps from each of its cells to an adjacent one.
\<close>

definition adjacent :: "coord \<Rightarrow> coord \<Rightarrow> bool" where
  "adjacent a b \<longleftrightarrow> \<bar>fst a - fst b\<bar> \<le> 1 \<and> \<bar>snd a - snd b\<bar> \<le> 1"

fun rawPath :: "coord list \<Rightarrow> bool" where
  "rawPath (a # b # rest) = (adjacent a b \<and> rawPath (b # rest))"
| "rawPath path = True"

definition walkableCell :: "grid \<Rightarrow> coord \<Rightarrow> bool" where
  "walkableCell gr c = isWalkableAt gr (fst c) (snd c)"

text \<open>
  A segment is clear when its interpolation is computed and all its cells are walkable;
  a path is clear when each of its segments is.
\<close>

definition clearSegment :: "grid \<Rightarrow> coord \<Rightarrow> coord \<Rightarrow> bool" where
  "clearSegment gr a b =
     (case interpolate (fst a) (snd a) (fst b) (snd b) of
        None \<Rightarrow> False
      | Some line \<Rightarrow> list_all (walkableCell gr) line)"

fun clearPath :: "grid \<Rightarrow> coord list \<Rightarrow> bool" where
  "clearPath gr (a # b # rest) = (clearSegment gr a b \<and> clearPath gr (b # rest))"
| "clearPath gr path = True"

text \<open>
  A segment from \<open>a\<close> to \<open>b\<close> is octilinear when it is horizontal, vertical or
  diagonal and \<open>a\<close> is not \<open>b\<close>; its direction is the pair of the signs of the
  coordinate differences. A path of turn points has at least two points, octilinear
  segments only, and a change of direction at every interior point.
\<close>

definition direction :: "coord \<Rightarrow> coord \<Rightarrow> int \<times> int" where
  "direction a b = (sgn (fst b - fst a), sgn (snd b - snd a))"

definition octilinear :: "coord \<Rightarrow> coord \<Rightarrow> bool" where
  "octilinear a b \<longleftrightarrow>
     a \<noteq> b \<and> (fst a = fst b \<or> snd a = snd b \<or> \<bar>fst b - fst a\<bar> = \<bar>snd b - snd a\<bar>)"

fun turnsFrom :: "int \<times> int \<Rightarrow> coord list \<Rightarrow> bool" where
  "turnsFrom u (b # c # rest) =
     (octilinear b c \<and> direction b c \<noteq> u \<and> turnsFrom (direction b c) (c # rest))"
| "turnsFrom u path = True"

definition turnPoints :: "coord list \<Rightarrow> bool" where
  "turnPoints path =
     (case path of
        a # b # rest \<Rightarrow> octilinear a b \<and> turnsFrom (direction a b) (b # rest)
      | _ \<Rightarrow> False)"

text \<open>
  The cells of a straight run: \<open>shift a u j\<close> is the cell \<open>j\<close> unit steps \<open>u\<close> away
  from \<open>a\<close>, \<open>steps a b\<close> the number of unit steps of an octilinear segment, and
  \<open>cells path\<close> the cells of all segments of a path, without the last point.
\<close>

definition unitStep :: "int \<times> int \<Rightarrow> bool" where
  "unitStep u \<longleftrightarrow> fst u \<in> {- 1, 0, 1} \<and> snd u \<in> {- 1, 0, 1} \<and> u \<noteq> (0, 0)"

definition shift :: "coord \<Rightarrow> int \<times> int \<Rightarrow> int \<Rightarrow> coord" where
  "shift a u j = (fst a + j * fst u, snd a + j * snd u)"

definition steps :: "coord \<Rightarrow> coord \<Rightarrow> int" where
  "steps a b = max \<bar>fst b - fst a\<bar> \<bar>snd b - snd a\<bar>"

fun cells :: "coord list \<Rightarrow> coord list" where
  "cells (a # b # rest) = map (shift a (direction a b)) [0..steps a b - 1] @ cells (b # rest)"
| "cells path = []"

fun octPath :: "coord list \<Rightarrow> bool" where
  "octPath (a # b # rest) = (octilinear a b \<and> octPath (b # rest))"
| "octPath path = True"

section \<open>Paths on the grid and their cost\<close>

text \<open>
  The cost of a step is 1 when it is orthogonal and the square root of 2 when it is
  diagonal. A step from \<open>u\<close> to \<open>v\<close> is allowed on a grid when \<open>getNeighbors\<close>
  lists \<open>v\<close> for the node at \<open>u\<close>; a valid path takes allowed steps only.
\<close>

definition stepCost :: "coord \<Rightarrow> coord \<Rightarrow> real" where
  "stepCost u v = (if fst v - fst u = 0 \<or> snd v - snd u = 0 then 1 else sqrt 2)"

fun pathCost :: "coord list \<Rightarrow> real" where
  "pathCost (u # v # rest) = stepCost u v + pathCost (v # rest)"
| "pathCost path = 0"

definition edge :: "grid \<Rightarrow> DiagonalMovement \<Rightarrow> coord \<Rightarrow> coord \<Rightarrow> bool" where
  "edge gr dm u v \<longleftrightarrow> v \<in> set (getNeighbors gr (nodes gr u) dm)"

fun validPath :: "grid \<Rightarrow> DiagonalMovement \<Rightarrow> coord list \<Rightarrow> bool" where
  "validPath gr dm (u # v # rest) = (edge gr dm u v \<and> validPath gr dm (v # rest))"
| "validPath gr dm [u] = True"
| "validPath gr dm [] = False"

definition pathBetween :: "grid \<Rightarrow> DiagonalMovement \<Rightarrow> coord \<Rightarrow> coord \<Rightarrow> coord list \<Rightarrow> bool" where
  "pathBetween gr dm a b path \<longleftrightarrow> validPath gr dm path \<and> hd path = a \<and> last path = b"

text \<open>
  A fresh grid: every node carries its own coordinates and no trace of a search. The
  heuristic of the finder is the function \<open>hf\<close> on the coordinate differences, and it
  is consistent on the grid: it drops by no more than the cost of a step along any
  allowed step.
\<close>

definition freshGrid :: "grid \<Rightarrow> bool" where
  "freshGrid gr \<longleftrightarrow>
     (\<forall>c. n_x (nodes gr c) = fst c \<and> n_y (nodes gr c) = snd c \<and>
          \<not> n_opened (nodes gr c) \<and> \<not> n_closed (nodes gr c) \<and>
          \<not> truthy (n_h (nodes gr c)) \<and> n_parent (nodes gr c) = None)"

definition heuristicIs :: "finder \<Rightarrow> (int \<Rightarrow> int \<Rightarrow> real) \<Rightarrow> bool" where
  "heuristicIs fd hf \<longleftrightarrow>
     (\<forall>a b. 0 \<le> a \<longrightarrow> 0 \<le> b \<longrightarrow>
        heuristic fd (Num (real_of_int a)) (Num (real_of_int b)) = Num (hf a b))"

definition hAt :: "(int \<Rightarrow> int \<Rightarrow> real) \<Rightarrow> coord \<Rightarrow> coord \<Rightarrow> real" where
  "hAt hf e c = hf \<bar>fst c - fst e\<bar> \<bar>snd c - snd e\<bar>"

definition consistent :: "grid \<Rightarrow> DiagonalMovement \<Rightarrow> coord \<Rightarrow> (int \<Rightarrow> int \<Rightarrow> real) \<Rightarrow> bool" where
  "consistent gr dm e hf \<longleftrightarrow>
     (\<forall>u v. isInside gr (fst u) (snd u) \<longrightarrow> edge gr dm u v \<longrightarrow>
        hAt hf e u \<le> stepCost u v + hAt hf e v)"

section \<open>The invariants of the search\<close>

text \<open>
  The data of a search problem: the finder, its heuristic as a function, the start, the
  end and the grid as the caller passed it.
\<close>

record problem =
  pb_finder :: finder
  pb_hf :: "int \<Rightarrow> int \<Rightarrow> real"
  pb_start :: coord
  pb_end :: coord
  pb_grid :: grid

definition wellPosed :: "problem \<Rightarrow> bool" where
  "wellPosed pb \<longleftrightarrow>
     \<not> ftruthy (avoidStaircase (pb_finder pb)) \<and> \<not> ftruthy (breakTies (pb_finder pb)) \<and>
     weight (pb_finder pb) = Num 1 \<and> heuristicIs (pb_finder pb) (pb_hf pb) \<and>
     consistent (pb_grid pb) (diagonalMovement (pb_finder pb)) (pb_end pb) (pb_hf pb) \<and>
     freshGrid (pb_grid pb) \<and>
     isInside (pb_grid pb) (fst (pb_start pb)) (snd (pb_start pb)) \<and>
     isInside (pb_grid pb) (fst (pb_end pb)) (snd (pb_end pb)) \<and>
     pb_start pb \<noteq> pb_end pb"

definition gval :: "store \<Rightarrow> coord \<Rightarrow> real" where
  "gval st c = (case n_g (st c) of Num r \<Rightarrow> r | NaN \<Rightarrow> 0)"

definition active :: "problem \<Rightarrow> grid \<Rightarrow> coord \<Rightarrow> bool" where
  "active pb gr c \<longleftrightarrow> walkableCell gr c \<or> c = pb_start pb"

text \<open>The grid of a later state: the caller's grid with some cells blocked.\<close>

definition subGrid :: "problem \<Rightarrow> grid \<Rightarrow> bool" where
  "subGrid pb gr \<longleftrightarrow>
     width gr = width (pb_grid pb) \<and> height gr = height (pb_grid pb) \<and>
     (\<forall>c. n_x (nodes gr c) = fst c \<and> n_y (nodes gr c) = snd c) \<and>
     (\<forall>c. walkableCell gr c \<longrightarrow> walkableCell (pb_grid pb) c)"

text \<open>\<open>trail st c path\<close>: the parent links from \<open>c\<close> lead back along \<open>path\<close>.\<close>

inductive trail :: "store \<Rightarrow> coord \<Rightarrow> coord list \<Rightarrow> bool" for st :: store where
  trail_root: "n_parent (st c) = None \<Longrightarrow> trail st c [c]"
| trail_step: "n_parent (st c) = Some p \<Longrightarrow> trail st p path \<Longrightarrow> trail st c (path @ [c])"

fun flat :: "coord list \<Rightarrow> int list" where
  "flat [] = []"
| "flat (c # cs) = snd c # fst c # flat cs"

definition openedAt :: "grid \<Rightarrow> coord \<Rightarrow> bool" where
  "openedAt gr c = n_opened (nodes gr c)"

definition closedAt :: "grid \<Rightarrow> coord \<Rightarrow> bool" where
  "closedAt gr c = n_closed (nodes gr c)"

text \<open>What holds of an opened node other than the start.\<close>

definition reached :: "problem \<Rightarrow> grid \<Rightarrow> coord \<Rightarrow> bool" where
  "reached pb gr c \<longleftrightarrow>
     (\<exists>path. n_g (nodes gr c) = Num (pathCost path) \<and>
        n_h (nodes gr c) = Num (hAt (pb_hf pb) (pb_end pb) c) \<and>
        n_f (nodes gr c) = Num (pathCost path + hAt (pb_hf pb) (pb_end pb) c) \<and>
        trail (nodes gr) c path \<and>
        pathBetween gr (diagonalMovement (pb_finder pb)) (pb_start pb) c path \<and>
        (\<forall>x\<in>set (butlast path). closedAt gr x \<and> active pb gr x))"

definition core :: "problem \<Rightarrow> grid \<Rightarrow> coord list \<Rightarrow> int list \<Rightarrow> bool" where
  "core pb gr openList dirtyNodes \<longleftrightarrow>
     subGrid pb gr \<and>
     openedAt gr (pb_start pb) \<and> closedAt gr (pb_start pb) \<and>
     n_g (nodes gr (pb_start pb)) = Num 0 \<and> n_parent (nodes gr (pb_start pb)) = None \<and>
     distinct openList \<and>
     set openList = {c. active pb gr c \<and> openedAt gr c \<and> \<not> closedAt gr c} \<and>
     (\<forall>c. active pb gr c \<and> c \<noteq> pb_start pb \<and> openedAt gr c \<longrightarrow> reached pb gr c) \<and>
     (\<forall>c. active pb gr c \<and> c \<noteq> pb_start pb \<and> \<not> openedAt gr c \<longrightarrow>
          \<not> closedAt gr c \<and> \<not> truthy (n_h (nodes gr c))) \<and>
     (\<forall>c path. active pb gr c \<and> closedAt gr c \<and>
          pathBetween gr (diagonalMovement (pb_finder pb)) (pb_start pb) c path \<longrightarrow>
          gval (nodes gr) c \<le> pathCost path) \<and>
     (\<exists>cs. dirtyNodes = snd (pb_start pb) # fst (pb_start pb) # flat cs \<and>
          (\<forall>c. active pb gr c \<and> c \<noteq> pb_start pb \<and> openedAt gr c \<longrightarrow> c \<in> set cs))"

text \<open>
  Every neighbour of a closed node is closed itself or opened with a cost no larger than
  through that node; for the node \<open>u\<close> being expanded, this holds of the neighbours that
  are not pending any more.
\<close>

definition fcond :: "problem \<Rightarrow> grid \<Rightarrow> coord \<Rightarrow> coord list \<Rightarrow> bool" where
  "fcond pb gr u pending \<longleftrightarrow>
     (\<forall>a v. active pb gr a \<and> closedAt gr a \<and> edge gr (diagonalMovement (pb_finder pb)) a v \<and>
          \<not> closedAt gr v \<and> (a = u \<longrightarrow> v \<notin> set pending) \<longrightarrow>
          openedAt gr v \<and> gval (nodes gr) v \<le> gval (nodes gr) a + stepCost a v)"

definition mainPhase :: "problem \<Rightarrow> search \<Rightarrow> bool" where
  "mainPhase pb s \<longleftrightarrow>
     core pb (s_grid s) (s_openList s) (s_dirtyNodes s) \<and> fcond pb (s_grid s) (pb_start pb) []"

definition initPhase :: "problem \<Rightarrow> search \<Rightarrow> bool" where
  "initPhase pb s \<longleftrightarrow>
     subGrid pb (s_grid s) \<and>
     openedAt (s_grid s) (pb_start pb) \<and>
     n_g (nodes (s_grid s) (pb_start pb)) = Num 0 \<and>
     n_f (nodes (s_grid s) (pb_start pb)) = Num 0 \<and>
     n_parent (nodes (s_grid s) (pb_start pb)) = None \<and>
     s_openList s = [pb_start pb] \<and>
     s_dirtyNodes s = [snd (pb_start pb), fst (pb_start pb)] \<and>
     (\<forall>c. active pb (s_grid s) c \<and> c \<noteq> pb_start pb \<longrightarrow>
          \<not> openedAt (s_grid s) c \<and> \<not> closedAt (s_grid s) c \<and> \<not> truthy (n_h (nodes (s_grid s) c)))"

text \<open>
  The first search of a call: no candidate is recorded, no cell is blocked yet, and the
  end node is not closed.
\<close>

definition firstSearch :: "problem \<Rightarrow> search \<Rightarrow> bool" where
  "firstSearch pb s \<longleftrightarrow>
     s_paths s = Some [] \<and> s_iterations s = 1 \<and>
     (\<forall>c. walkableCell (pb_grid pb) c \<longrightarrow> walkableCell (s_grid s) c) \<and>
     \<not> closedAt (s_grid s) (pb_end pb)"

text \<open>Two grids of the same shape: same size, same walkable cells, same coordinates.\<close>

definition sameShape :: "grid \<Rightarrow> grid \<Rightarrow> bool" where
  "sameShape gr gr' \<longleftrightarrow>
     width gr = width gr' \<and> height gr = height gr' \<and>
     (\<forall>c. n_walkable (nodes gr c) = n_walkable (nodes gr' c) \<and>
          n_x (nodes gr c) = n_x (nodes gr' c) \<and> n_y (nodes gr c) = n_y (nodes gr' c))"

text \<open>The cells of the grid, and the two counts that decrease as the search proceeds.\<close>

definition cellsOf :: "grid \<Rightarrow> coord set" where
  "cellsOf gr = {0..<width gr} \<times> {0..<height gr}"

definition walkableCount :: "grid \<Rightarrow> nat" where
  "walkableCount gr = card {c \<in> cellsOf gr. n_walkable (nodes gr c)}"

definition unclosedCount :: "grid \<Rightarrow> nat" where
  "unclosedCount gr = card {c \<in> cellsOf gr. \<not> n_closed (nodes gr c)}"

text \<open>The grid in which the node at \<open>n\<close> is closed.\<close>

definition closeNode :: "grid \<Rightarrow> coord \<Rightarrow> grid" where
  "closeNode gr n = gr\<lparr>nodes := (nodes gr)(n := (nodes gr n)\<lparr>n_closed := True\<rparr>)\<rparr>"

text \<open>
  The grid that the next search starts on: the dirty nodes are reset, the first tile of
  the path just found is blocked, and the start node is opened at cost 0.
\<close>

definition restart :: "grid \<Rightarrow> int list \<Rightarrow> coord \<Rightarrow> coord \<Rightarrow> grid" where
  "restart gr dirty t S =
     (let g1 = cleanUp gr dirty (Some t);
          g2 = g1\<lparr>nodes := (nodes g1)(t := (nodes g1 t)\<lparr>n_walkable := False\<rparr>)\<rparr>
      in g2\<lparr>nodes := (nodes g2)(S := (nodes g2 S)\<lparr>n_g := Num 0, n_f := Num 0, n_opened := True\<rparr>)\<rparr>)"

text \<open>
  The order in which the passes of the search progress: a pass leaves fewer walkable cells,
  or as many of them and fewer nodes that are not closed.
\<close>

definition progress :: "(search \<times> search) set" where
  "progress = inv_image (less_than <*lex*> less_than)
                (\<lambda>s. (walkableCount (s_grid s), unclosedCount (s_grid s)))"

text \<open>The Manhattan distance, as a function of the differences of the coordinates.\<close>

definition manhattanDistance :: "int \<Rightarrow> int \<Rightarrow> real" where
  "manhattanDistance dx dy = real_of_int dx + real_of_int dy"

section \<open>Example inputs\<close>

text \<open>
  A row of three cells whose middle cell is a wall, and a square of three by three cells
  whose centre is a wall.
\<close>

definition wallRow :: grid where
  "wallRow = \<lparr>width = 3, height = 1, nodes = (\<lambda>c. Node (fst c) (snd c) (c \<noteq> (1, 0)))\<rparr>"

definition ringGrid :: grid where
  "ringGrid = \<lparr>width = 3, height = 3, nodes = (\<lambda>c. Node (fst c) (snd c) (c \<noteq> (1, 1)))\<rparr>"

text \<open>
  Two opened neighbours of the cell \<open>(1, 1)\<close>, tied at \<open>f = 3\<close>: the one above, with
  direction 0 (up), and the one to the right, with direction 1 (right).
\<close>

definition tieStore :: store where
  "tieStore =
     (\<lambda>c. if c = (1, 0)
           then (Node 1 0 True)\<lparr>n_g := Num 1, n_h := Num 2, n_f := Num 3, n_opened := True,
                                 n_parent := Some (1, 1), n_direction := Some 0\<rparr>
           else if c = (2, 1)
           then (Node 2 1 True)\<lparr>n_g := Num 1, n_h := Num 2, n_f := Num 3, n_opened := True,
                                 n_parent := Some (1, 1), n_direction := Some 1\<rparr>
           else Node (fst c) (snd c) True)"

text \<open>
  A straight run to the right along \<open>y = 0\<close> that last turned at \<open>(0, 0)\<close>: the
  node \<open>(3, 0)\<close> has the parent \<open>(2, 0)\<close> and carries the last-turn coordinates
  \<open>(0, 0)\<close>. The finder avoids staircases and uses momentum, with the default turn
  penalty 0.001, momentum 0.0001 and Manhattan heuristic.
\<close>

definition turnStore :: store where
  "turnStore =
     (\<lambda>c. if c = (2, 0)
           then (Node 2 0 True)\<lparr>n_g := Num 2, n_h := Num 3, n_f := Num 5, n_opened := True,
                                 n_closed := True, n_parent := Some (1, 0),
                                 n_lastTurnX := Num 0, n_lastTurnY := Num 0\<rparr>
           else if c = (3, 0)
           then (Node 3 0 True)\<lparr>n_g := Num 3, n_h := Num 2, n_f := Num 5, n_opened := True,
                                 n_closed := True, n_parent := Some (2, 0),
                                 n_lastTurnX := Num 0, n_lastTurnY := Num 0\<rparr>
           else Node (fst c) (snd c) True)"

definition momentumFinder :: finder where
  "momentumFinder = AStarFinder (noOptions\<lparr>o_avoidStaircase := Some True, o_useMomentum := Some True\<rparr>)"

text \<open>A row of three walkable cells.\<close>

definition openRow :: grid where
  "openRow = \<lparr>width = 3, height = 1, nodes = (\<lambda>c. Node (fst c) (snd c) True)\<rparr>"

text \<open>
  A parent chain of three links: the node \<open>(1, 2)\<close> has the parent \<open>(1, 1)\<close>, which
  has the parent \<open>(0, 1)\<close>, which has the parent \<open>(0, 0)\<close>, the root.
\<close>

definition zigzagStore :: store where
  "zigzagStore =
     (\<lambda>c. if c = (0, 1) then (Node 0 1 True)\<lparr>n_parent := Some (0, 0)\<rparr>
           else if c = (1, 1) then (Node 1 1 True)\<lparr>n_parent := Some (0, 1)\<rparr>
           else if c = (1, 2) then (Node 1 2 True)\<lparr>n_parent := Some (1, 1)\<rparr>
           else Node (fst c) (snd c) True)"





section \<open>Properties of backtrace\<close>

lemma chainList_hd: "hd (chainList st nd d) = (n_x nd, n_y nd)"
  by (cases d) simp_all

lemma chainList_nonempty: "chainList st nd d \<noteq> []"
  by (cases d) simp_all

lemma chainList_chain:
  "chain st nd d r \<Longrightarrow>
   length (chainList st nd d) = d + 1 \<and> last (chainList st nd d) = (n_x r, n_y r)"
  by (induction rule: chain.induct) (simp_all add: chainList_nonempty)

lemma backtrace_loop_chainList:
  "chain st nd d r \<Longrightarrow> backtrace_loop st nd path = Some (path @ tl (chainList st nd d))"
proof (induction arbitrary: path rule: chain.induct)
  case (chain_root nd st)
  then show ?case by (subst backtrace_loop.simps) simp
next
  case (chain_step nd p st d r)
  have "chainList st (st p) d = (n_x (st p), n_y (st p)) # tl (chainList st (st p) d)"
    using chainList_hd [of st "st p" d] chainList_nonempty [of st "st p" d]
    by (cases "chainList st (st p) d") simp_all
  then have "path @ tl (chainList st nd (Suc d)) =
             (path @ [(n_x (st p), n_y (st p))]) @ tl (chainList st (st p) d)"
    using chain_step.hyps(1) by simp
  then show ?case
    using chain_step.hyps(1) chain_step.IH [of "path @ [(n_x (st p), n_y (st p))]"]
    by (subst backtrace_loop.simps) simp
qed

text \<open>
  C9. For a node whose parent chain ends, after \<open>d\<close> links, at a root without parent,
  \<open>backtrace\<close> returns the coordinates along the chain in the order from the root to
  the node: the reverse of the list that starts at the node and follows the parent links.
  Its first element is the root's coordinates, its last element the given node's
  coordinates, and its length is the depth plus one.
\<close>

theorem backtrace_root_to_node:
  assumes "chain st nd d r"
  shows "backtrace st nd = Some (rev (chainList st nd d)) \<and>
         hd (rev (chainList st nd d)) = (n_x r, n_y r) \<and>
         last (rev (chainList st nd d)) = (n_x nd, n_y nd) \<and>
         length (rev (chainList st nd d)) = d + 1"
proof -
  have "(n_x nd, n_y nd) # tl (chainList st nd d) = chainList st nd d"
    using chainList_hd [of st nd d] chainList_nonempty [of st nd d]
    by (cases "chainList st nd d") simp_all
  with backtrace_loop_chainList [OF assms, of "[(n_x nd, n_y nd)]"]
  have "backtrace st nd = Some (rev (chainList st nd d))"
    by (simp add: backtrace_def)
  moreover have "hd (rev (chainList st nd d)) = (n_x r, n_y r)"
    using chainList_chain [OF assms] by (simp add: hd_rev chainList_nonempty)
  moreover have "last (rev (chainList st nd d)) = (n_x nd, n_y nd)"
    using chainList_hd [of st nd d] by (simp add: last_rev chainList_nonempty)
  ultimately show ?thesis
    using chainList_chain [OF assms] by simp
qed

theorem backtrace_root_to_node_witness:
  "chain zigzagStore (zigzagStore (1, 2)) 3 (zigzagStore (0, 0)) \<and>
   backtrace zigzagStore (zigzagStore (1, 2)) = Some [(0, 0), (0, 1), (1, 1), (1, 2)]"
proof -
  have "chain zigzagStore (zigzagStore (0, 0)) 0 (zigzagStore (0, 0))"
    by (rule chain_root) (simp add: zigzagStore_def Node_def)
  then have "chain zigzagStore (zigzagStore (0, 1)) (Suc 0) (zigzagStore (0, 0))"
    by (rule chain_step [rotated]) (simp add: zigzagStore_def)
  then have "chain zigzagStore (zigzagStore (1, 1)) (Suc (Suc 0)) (zigzagStore (0, 0))"
    by (rule chain_step [rotated]) (simp add: zigzagStore_def)
  then have c: "chain zigzagStore (zigzagStore (1, 2)) 3 (zigzagStore (0, 0))"
    unfolding numeral_3_eq_3 by (rule chain_step [rotated]) (simp add: zigzagStore_def)
  have "rev (chainList zigzagStore (zigzagStore (1, 2)) 3) = [(0, 0), (0, 1), (1, 1), (1, 2)]"
    unfolding numeral_3_eq_3 by (simp add: zigzagStore_def Node_def)
  with backtrace_root_to_node [OF c] c show ?thesis by simp
qed

section \<open>Evaluation on concrete inputs\<close>

lemmas finder_defs =
  AStarFinder_def noOptions_def orNum_def andNot_def manhattan_def octile_def
  fnum_def ftruthy_def bnum_def

lemmas util_defs =
  bestPath_def backtrace_def backtrace_loop.simps resolveTies_def

lemmas grid_defs =
  getNeighbors_def cellIf_def diagonalAllowed_def setWalkableAt_def getNodeAt_def
  isWalkableAt_def isInside_def cleanUp_def resetNode_def pop_def cmpF_def Node_def

lemmas findPath_defs =
  findPath_def findPath_init_def findPath_loop.simps findPath_pass_def expand_def
  relaxNeighbors_def
  reachedEnd_def noPathFound_def breakTiesAfter_def tieCall_def relaxNeighbor_def
  tentative_def shapeCost_def recordTurn_def turned_def Let_def

section \<open>The constructor: maxIterations\<close>

lemma maxIterations_of_flags:
  "maxIterations (AStarFinder opt) =
     (case o_breakTies opt of
        None \<Rightarrow> NaN
      | Some False \<Rightarrow> Num 2
      | Some True \<Rightarrow> if o_ignoreStartTies opt = Some True then Num 2 else Num 3)"
  by (simp add: finder_defs split: option.splits bool.splits)

text \<open>
  C6. For the option object that leaves \<open>breakTies\<close> out, as \<open>new AStarFinder()\<close>
  and \<open>new AStarFinder({})\<close> do, the constructor sets \<open>maxIterations\<close> to
  \<open>2 + undefined\<close>, which is not a number and not 2; the test
  \<open>iterations > maxIterations\<close> of the refinement loop is then false for every
  iteration count.
\<close>

theorem maxIterations_without_breakTies:
  "maxIterations (AStarFinder noOptions) = NaN \<and>
   maxIterations (AStarFinder noOptions) \<noteq> Num 2 \<and>
   \<not> nlt (maxIterations (AStarFinder noOptions)) (Num (real k))"
  by (simp add: finder_defs)

section \<open>Tie resolution at the start node\<close>

lemma tieCall_breakTies:
  "tieCall fd atStartNode = (if ftruthy (breakTies fd) then Some (if ftruthy (ignoreStartTies fd) \<and> \<not> atStartNode then 1 else 2) else None)"
  by (simp add: tieCall_def)

text \<open>
  C3. With \<open>breakTies\<close> and \<open>ignoreStartTies\<close> both enabled, the pass that expands
  the start node (\<open>atStartNode\<close> is true) falls through to the second call of
  \<open>resolveTies\<close>: tie resolution is not skipped at the start node. The call is made
  there all the same, and as it names \<open>resolveTies\<close> bare it throws a ReferenceError.
\<close>

theorem resolveTies_called_at_start:
  "tieCall (AStarFinder (noOptions\<lparr>o_breakTies := Some True, o_ignoreStartTies := Some True\<rparr>)) True = Some 2 \<and>
   breakTiesAfter
     (AStarFinder (noOptions\<lparr>o_breakTies := Some True, o_ignoreStartTies := Some True\<rparr>))
     True st = Inl ReferenceError"
  by (simp add: breakTiesAfter_def tieCall_def finder_defs)

section \<open>The search without a path\<close>

text \<open>
  C2. On the grid of three cells in a row whose middle cell is not walkable, the search
  from the left to the right cell empties the open list without a candidate: the array of
  candidates is empty but truthy, so \<open>if(paths)\<close> is taken, and the bare name
  \<open>bestPath\<close> throws a ReferenceError instead of the empty path being returned. A
  search whose start is its end throws as well, a TypeError at \<open>firstTileTaken[0]\<close>.
\<close>

theorem findPath_unreachable_throws:
  "findPath (AStarFinder noOptions) 0 0 2 0
     \<lparr>width = 3, height = 1, nodes = (\<lambda>c. Node (fst c) (snd c) (c \<noteq> (1, 0)))\<rparr>
     = Some (Inl ReferenceError) \<and>
   findPath (AStarFinder noOptions) 0 0 0 0
     \<lparr>width = 3, height = 1, nodes = (\<lambda>c. Node (fst c) (snd c) True)\<rparr>
     = Some (Inl TypeError)"
  by (simp add: findPath_defs grid_defs util_defs finder_defs)

section \<open>Properties of resolveTies\<close>

lemma findB_mem: "findB tied st a bs = Some b \<Longrightarrow> b \<in> set bs"
  by (induction bs) (auto split: if_splits)

lemma findPair_mem: "findPair tied st cs = Some (a, b) \<Longrightarrow> a \<in> set cs \<and> b \<in> set cs"
  by (induction cs) (auto split: option.splits dest: findB_mem)

lemma tieCase_Some:
  "tieCase a b = Some k \<Longrightarrow>
   k < 6 \<and> n_direction a \<in> {Some 0, Some 1, Some 2, Some 3} \<and>
   n_direction b \<in> {Some 0, Some 1, Some 2, Some 3}"
  by (auto simp: tieCase_def dirs_def Let_def split: if_splits)

text \<open>
  What a call that returns has done: nothing, or the subtraction of the tie breaker from
  the \<open>g\<close> of one candidate whose direction is the preferred one of some tie case.
\<close>

lemma resolveTies_cases:
  assumes "resolveTies gtp st cs minFVal prefs = Inr st'"
  shows "\<exists>tp. gtp = Some tp \<and>
           (st' = st \<or>
            (\<exists>a\<in>set cs. \<exists>k<6. preferenceAt prefs k = Inr (n_direction (st a)) \<and>
               n_direction (st a) \<noteq> None \<and>
               st' = st(a := (st a)\<lparr>n_g := nsub (n_g (st a)) (ndiv tp (Num 100))\<rparr>)))"
proof (cases gtp)
  case None
  with assms show ?thesis by (simp add: resolveTies_def)
next
  case (Some tp)
  let ?pair = "if threeWayTie st minFVal cs 0 then findPair (tied3 minFVal) st cs
               else findPair (tied2 minFVal) st cs"
  show ?thesis
  proof (cases ?pair)
    case None
    with assms Some show ?thesis by (simp add: resolveTies_def Let_def)
  next
    case pr: (Some ab)
    obtain a b where ab: "ab = (a, b)" by (cases ab)
    from pr ab have mem: "a \<in> set cs" "b \<in> set cs"
      by (auto split: if_splits dest: findPair_mem)
    show ?thesis
    proof (cases "tieCase (st a) (st b)")
      case None
      with assms Some pr ab show ?thesis by (simp add: resolveTies_def Let_def)
    next
      case tc: (Some k)
      from tieCase_Some [OF tc] have k: "k < 6" "n_direction (st a) \<noteq> None" "n_direction (st b) \<noteq> None"
        by auto
      from assms Some pr ab tc
      have pc: "preferCase st a b (ndiv tp (Num 100)) prefs k = Inr st'"
        by (simp add: resolveTies_def Let_def)
      then obtain pref where pa: "preferenceAt prefs k = Inr pref"
        by (auto simp: preferCase_def split: sum.splits)
      with pc have st': "st' = (if n_direction (st a) = pref then subtractTieBreaker st a (ndiv tp (Num 100))
               else if n_direction (st b) = pref then subtractTieBreaker st b (ndiv tp (Num 100))
               else st)"
        by (simp add: preferCase_def)
      consider (A) "n_direction (st a) = pref"
        | (B) "n_direction (st a) \<noteq> pref" "n_direction (st b) = pref"
        | (N) "n_direction (st a) \<noteq> pref" "n_direction (st b) \<noteq> pref"
        by blast
      then show ?thesis
      proof cases
        case A
        with st' have "st' = st(a := (st a)\<lparr>n_g := nsub (n_g (st a)) (ndiv tp (Num 100))\<rparr>)"
          by (simp add: subtractTieBreaker_def)
        with A pa k mem(1) Some show ?thesis by blast
      next
        case B
        with st' have "st' = st(b := (st b)\<lparr>n_g := nsub (n_g (st b)) (ndiv tp (Num 100))\<rparr>)"
          by (simp add: subtractTieBreaker_def)
        with B pa k mem(2) Some show ?thesis by blast
      next
        case N
        with st' Some show ?thesis by simp
      qed
    qed
  qed
qed

lemma resolveTies_direction:
  assumes "resolveTies gtp st cs minFVal prefs = Inr st'"
  shows "n_direction (st' c) = n_direction (st c)"
  using resolveTies_cases [OF assms] by auto

text \<open>
  C4, as the code has it. A call of \<open>resolveTies\<close> that returns has changed nothing, or
  it has subtracted the tie breaker \<open>turnPenalty / 100\<close> from the \<open>g\<close> of one
  candidate, whose direction is the preferred one. Nothing else is written: \<open>f\<close> and
  \<open>h\<close> of every node are what they were, so \<open>f\<close> is not recomputed.
\<close>

theorem resolveTies_subtracts_from_g_only:
  assumes "resolveTies gtp st cs minFVal prefs = Inr st'"
  shows "\<exists>tp. gtp = Some tp \<and>
           (st' = st \<or>
            (\<exists>a\<in>set cs. \<exists>k<6. preferenceAt prefs k = Inr (n_direction (st a)) \<and>
               st' = st(a := (st a)\<lparr>n_g := nsub (n_g (st a)) (ndiv tp (Num 100))\<rparr>))) \<and>
           (\<forall>c. n_f (st' c) = n_f (st c) \<and> n_h (st' c) = n_h (st c))"
proof -
  from resolveTies_cases [OF assms] obtain tp where tp: "gtp = Some tp"
    and cases: "st' = st \<or>
            (\<exists>a\<in>set cs. \<exists>k<6. preferenceAt prefs k = Inr (n_direction (st a)) \<and>
               n_direction (st a) \<noteq> None \<and>
               st' = st(a := (st a)\<lparr>n_g := nsub (n_g (st a)) (ndiv tp (Num 100))\<rparr>))"
    by blast
  from cases have frame: "\<forall>c. n_f (st' c) = n_f (st c) \<and> n_h (st' c) = n_h (st c)"
    by auto
  from cases have "st' = st \<or>
            (\<exists>a\<in>set cs. \<exists>k<6. preferenceAt prefs k = Inr (n_direction (st a)) \<and>
               st' = st(a := (st a)\<lparr>n_g := nsub (n_g (st a)) (ndiv tp (Num 100))\<rparr>))"
    by blast
  with tp frame show ?thesis by blast
qed

lemma resolveTies_tieStore:
  "resolveTies (Some (Num (1 / 1000))) tieStore [(1, 0), (2, 1)] (Num 3)
     (Some [Some 0, Some 0, Some 0, Some 2, Some 1, Some 2])
   = Inr (tieStore((1, 0) := (tieStore (1, 0))\<lparr>n_g := Num (99999 / 100000)\<rparr>))"
  by (simp add: resolveTies_def tied2_def tieCase_def dirs_def preferCase_def preferenceAt_def
      subtractTieBreaker_def tieStore_def Node_def Let_def)

theorem resolveTies_subtracts_from_g_only_witness:
  "\<exists>tp. Some (Num (1 / 1000)) = Some tp \<and>
     (tieStore((1, 0) := (tieStore (1, 0))\<lparr>n_g := Num (99999 / 100000)\<rparr>) = tieStore \<or>
      (\<exists>a\<in>set [(1, 0), (2, 1)]. \<exists>k<6.
          preferenceAt (Some [Some 0, Some 0, Some 0, Some 2, Some 1, Some 2]) k = Inr (n_direction (tieStore a)) \<and>
          tieStore((1, 0) := (tieStore (1, 0))\<lparr>n_g := Num (99999 / 100000)\<rparr>) =
          tieStore(a := (tieStore a)\<lparr>n_g := nsub (n_g (tieStore a)) (ndiv tp (Num 100))\<rparr>))) \<and>
     (\<forall>c. n_f ((tieStore((1, 0) := (tieStore (1, 0))\<lparr>n_g := Num (99999 / 100000)\<rparr>)) c) = n_f (tieStore c) \<and>
          n_h ((tieStore((1, 0) := (tieStore (1, 0))\<lparr>n_g := Num (99999 / 100000)\<rparr>)) c) = n_h (tieStore c))"
  by (rule resolveTies_subtracts_from_g_only [OF resolveTies_tieStore])

text \<open>
  The claim C4 as stated fails: both candidates satisfy \<open>f = g + h\<close> before the call,
  the candidate going up is the preferred one, and after the call its \<open>g\<close> is smaller by
  the tie breaker while its \<open>f\<close> is still 3, so \<open>f = g + h\<close> does not hold for it.
\<close>

theorem resolveTies_breaks_f_invariant:
  "n_f (tieStore (1, 0)) = nadd (n_g (tieStore (1, 0))) (n_h (tieStore (1, 0))) \<and>
   n_f (tieStore (2, 1)) = nadd (n_g (tieStore (2, 1))) (n_h (tieStore (2, 1))) \<and>
   (case resolveTies (Some (Num (1 / 1000))) tieStore [(1, 0), (2, 1)] (Num 3)
           (Some [Some 0, Some 0, Some 0, Some 2, Some 1, Some 2]) of
      Inl e \<Rightarrow> False
    | Inr st' \<Rightarrow>
        n_g (st' (1, 0)) = Num (99999 / 100000) \<and> n_h (st' (1, 0)) = Num 2 \<and>
        n_f (st' (1, 0)) = Num 3 \<and>
        n_f (st' (1, 0)) \<noteq> nadd (n_g (st' (1, 0))) (n_h (st' (1, 0))))"
  by (simp add: resolveTies_tieStore) (simp add: tieStore_def Node_def)






section \<open>The search leaves the direction fields alone\<close>

lemma recordTurn_direction: "n_direction (recordTurn st na nba c) = n_direction (st c)"
  by (simp add: recordTurn_def Let_def)

lemma tentative_direction: "n_direction (fst (tentative fd st na nba) c) = n_direction (st c)"
  by (simp add: tentative_def shapeCost_def Let_def recordTurn_direction)

lemma relaxNeighbor_direction:
  "n_direction (r_nodes (relaxNeighbor fd endX endY na rs nba) c) = n_direction (r_nodes rs c)"
  by (simp add: relaxNeighbor_def Let_def tentative_direction)

lemma foldl_relaxNeighbor_direction:
  "n_direction (r_nodes (foldl (relaxNeighbor fd endX endY na) rs nbs) c) = n_direction (r_nodes rs c)"
  by (induction nbs arbitrary: rs) (simp_all add: relaxNeighbor_direction)

lemma cleanUp_loop_direction:
  "n_direction (cleanUp_loop st dirty ex c) = n_direction (st c)"
  by (induction st dirty ex rule: cleanUp_loop.induct) (simp_all add: resetNode_def)

lemma findPath_init_direction:
  "findPath_init startX startY endX endY gr paths ft its = Inr s \<Longrightarrow>
   n_direction (nodes (s_grid s) c) = n_direction (nodes gr c)"
  by (auto simp: findPath_init_def Let_def getNodeAt_def setWalkableAt_def
      split: sum.splits if_splits option.splits)

lemma expand_direction:
  assumes "expand fd endX endY s st openList na = Continue s'"
  shows "n_direction (nodes (s_grid s') c) = n_direction (st c)"
proof -
  let ?rs = "relaxNeighbors fd endX endY s st openList na"
  from assms obtain st' where
    bt: "breakTiesAfter fd (s_atStartNode s) (r_nodes ?rs) = Inr st'"
    and s': "nodes (s_grid s') = st'"
    by (auto simp: expand_def Let_def split: sum.splits)
  have "n_direction (st' c) = n_direction (r_nodes ?rs c)"
    using bt by (auto simp: breakTiesAfter_def split: option.splits)
  then show ?thesis
    using s' by (simp add: relaxNeighbors_def foldl_relaxNeighbor_direction)
qed

lemma reachedEnd_direction:
  assumes "reachedEnd fd startX startY endX endY s st endNode = Continue s'"
  shows "n_direction (nodes (s_grid s') c) = n_direction (st c)"
  using assms
  by (auto simp: reachedEnd_def Let_def cleanUp_def cleanUp_loop_direction
      split: option.splits if_splits sum.splits dest!: findPath_init_direction [where c = c])

text \<open>No pass of the search loop writes a \<open>direction\<close> field.\<close>

lemma findPath_pass_direction:
  assumes "findPath_pass fd startX startY endX endY s = Continue s'"
  shows "n_direction (nodes (s_grid s') c) = n_direction (nodes (s_grid s) c)"
  using assms
  by (auto simp: findPath_pass_def Let_def split: if_splits option.splits
      dest!: expand_direction [where c = c] reachedEnd_direction [where c = c])

section \<open>Cost shaping: the momentum at a turn\<close>

text \<open>
  At a turn the last-turn coordinates of the neighbour are overwritten with the
  coordinates of the current node before the heuristic reads them: the term added is the
  momentum times the heuristic of \<open>(0, 0)\<close>, whatever last-turn coordinates the current
  node carries.
\<close>

lemma shapeCost_turned:
  assumes "turned st na nba"
  shows "snd (shapeCost fd st na nba ng) =
           nadd (nsub (nadd ng (nmul (turnPenalty fd) (Num 1)))
                   (nmul (nmul (momentum fd) (Num 0)) (fnum (useMomentum fd))))
             (nmul (nmul (nmul (momentum fd) (Num 1)) (heuristic fd (Num 0) (Num 0)))
                (fnum (useMomentum fd)))"
  using assms by (simp add: shapeCost_def recordTurn_def Let_def bnum_def)

text \<open>
  C5. The node \<open>(3, 0)\<close> with cost 3 was reached going right and carries the last-turn
  coordinates \<open>(0, 0)\<close>, at Manhattan distance 3. The step down to \<open>(3, 1)\<close> is a
  turn: its tentative cost is \<open>3 + 1 + 0.001\<close>, with nothing added back, and not
  \<open>3 + 1 + 0.001 + 3 * 0.0001\<close>. The straight step to \<open>(4, 0)\<close> costs
  \<open>3 + 1 - 0.0001\<close>.
\<close>

theorem tentative_turn_adds_nothing_back:
  "n_parent (turnStore (3, 0)) = Some (2, 0) \<and>
   n_lastTurnX (turnStore (3, 0)) = Num 0 \<and> n_lastTurnY (turnStore (3, 0)) = Num 0 \<and>
   snd (tentative momentumFinder turnStore (3, 0) (3, 1)) = Num (4 + 1 / 1000) \<and>
   snd (tentative momentumFinder turnStore (3, 0) (3, 1)) \<noteq> Num (4 + 1 / 1000 + 3 / 10000) \<and>
   snd (tentative momentumFinder turnStore (3, 0) (4, 0)) = Num (4 - 1 / 10000)"
  by (simp add: tentative_def shapeCost_def recordTurn_def turned_def turnStore_def
      momentumFinder_def finder_defs Node_def Let_def)

section \<open>Properties of interpolate\<close>

text \<open>
  The loop of \<open>interpolate\<close> ends: after \<open>a\<close> steps in \<open>x\<close> and \<open>b\<close> steps in
  \<open>y\<close> the error term is \<open>dx - dy - a * dy + b * dx\<close>, no step overshoots, and
  every pass steps in at least one axis.
\<close>

lemma interpolate_loop_returns:
  fixes X0 Y0 dx dy sx sy a b :: int
  assumes sx: "sx = 1 \<or> sx = - 1" and sy: "sy = 1 \<or> sy = - 1"
    and ab: "0 \<le> a" "a \<le> dx" "0 \<le> b" "b \<le> dy"
    and n: "n = nat ((dx - a) + (dy - b))"
  shows "\<exists>cells. interpolate_loop (X0 + sx * dx) (Y0 + sy * dy) dx dy sx sy
                   (X0 + sx * a) (Y0 + sy * b) (dx - dy - a * dy + b * dx) line
                 = Some (line @ (X0 + sx * a, Y0 + sy * b) # cells)"
  using ab n
proof (induction n arbitrary: a b line rule: less_induct)
  case (less n)
  let ?err = "dx - dy - a * dy + b * dx"
  show ?case
  proof (cases "a = dx \<and> b = dy")
    case True
    then show ?thesis by (subst interpolate_loop.simps) simp
  next
    case False
    have ne: "\<not> (X0 + sx * a = X0 + sx * dx \<and> Y0 + sy * b = Y0 + sy * dy)"
      using False sx sy by auto
    define c1 where "c1 \<longleftrightarrow> 2 * ?err > - dy"
    define c2 where "c2 \<longleftrightarrow> 2 * ?err < dx"
    define a' where "a' = (if c1 then a + 1 else a)"
    define b' where "b' = (if c2 then b + 1 else b)"
    have a': "a' \<le> dx"
    proof (cases "a = dx")
      case True
      with False less.prems have bl: "b < dy" by simp
      then have "dx * (1 + b - dy) \<le> 0"
        using less.prems by (intro mult_nonneg_nonpos) auto
      then have "?err \<le> - dy" using True by (simp add: algebra_simps)
      then have "\<not> c1" using bl less.prems by (simp add: c1_def)
      then show ?thesis using True by (simp add: a'_def)
    next
      case False
      then show ?thesis using less.prems by (simp add: a'_def)
    qed
    have b': "b' \<le> dy"
    proof (cases "b = dy")
      case True
      with False less.prems have al: "a < dx" by simp
      then have "0 \<le> dy * (dx - a - 1)"
        using less.prems by (intro mult_nonneg_nonneg) auto
      then have "dx \<le> ?err" using True by (simp add: algebra_simps)
      then have "\<not> c2" using al less.prems by (simp add: c2_def)
      then show ?thesis using True by (simp add: b'_def)
    next
      case False
      then show ?thesis using less.prems by (simp add: b'_def)
    qed
    have prog: "c1 \<or> c2"
    proof (rule ccontr)
      assume "\<not> (c1 \<or> c2)"
      then have "2 * ?err \<le> - dy" "dx \<le> 2 * ?err" by (auto simp: c1_def c2_def)
      then have "dx + dy \<le> 0" by linarith
      with less.prems False show False by auto
    qed
    define n' where "n' = nat ((dx - a') + (dy - b'))"
    have "n' < n" using prog a' b' less.prems by (auto simp: n'_def a'_def b'_def)
    moreover have "0 \<le> a'" "0 \<le> b'" using less.prems by (auto simp: a'_def b'_def)
    ultimately obtain cells where cells:
      "interpolate_loop (X0 + sx * dx) (Y0 + sy * dy) dx dy sx sy
         (X0 + sx * a') (Y0 + sy * b') (dx - dy - a' * dy + b' * dx)
         (line @ [(X0 + sx * a, Y0 + sy * b)])
       = Some ((line @ [(X0 + sx * a, Y0 + sy * b)]) @ (X0 + sx * a', Y0 + sy * b') # cells)"
      using less.IH [of n' a' b' "line @ [(X0 + sx * a, Y0 + sy * b)]"] a' b' n'_def by blast
    have x': "(if 2 * ?err > - dy then X0 + sx * a + sx else X0 + sx * a) = X0 + sx * a'"
      by (simp add: a'_def c1_def algebra_simps)
    have y': "(if 2 * ?err < dx then Y0 + sy * b + sy else Y0 + sy * b) = Y0 + sy * b'"
      by (simp add: b'_def c2_def algebra_simps)
    have e': "(if 2 * ?err > - dy then ?err - dy else ?err) + (if 2 * ?err < dx then dx else 0)
              = dx - dy - a' * dy + b' * dx"
      by (simp add: a'_def b'_def c1_def c2_def algebra_simps)
    have "interpolate_loop (X0 + sx * dx) (Y0 + sy * dy) dx dy sx sy
                   (X0 + sx * a) (Y0 + sy * b) ?err line
          = Some ((line @ [(X0 + sx * a, Y0 + sy * b)]) @ (X0 + sx * a', Y0 + sy * b') # cells)"
      apply (subst interpolate_loop.simps)
      apply (simp only: ne if_False x' y' e')
      apply (rule cells)
      done
    then show ?thesis by simp
  qed
qed

text \<open>On integer coordinates \<open>interpolate\<close> returns a line that starts at the start.\<close>

lemma interpolate_returns:
  "\<exists>cells. interpolate x0 y0 x1 y1 = Some ((x0, y0) # cells)"
proof -
  define sx :: int where "sx = (if x0 < x1 then 1 else - 1)"
  define sy :: int where "sy = (if y0 < y1 then 1 else - 1)"
  have x1: "x1 = x0 + sx * \<bar>x1 - x0\<bar>" and y1: "y1 = y0 + sy * \<bar>y1 - y0\<bar>"
    by (auto simp: sx_def sy_def)
  have "\<exists>cells. interpolate_loop (x0 + sx * \<bar>x1 - x0\<bar>) (y0 + sy * \<bar>y1 - y0\<bar>) \<bar>x1 - x0\<bar> \<bar>y1 - y0\<bar> sx sy
                   (x0 + sx * 0) (y0 + sy * 0) (\<bar>x1 - x0\<bar> - \<bar>y1 - y0\<bar> - 0 * \<bar>y1 - y0\<bar> + 0 * \<bar>x1 - x0\<bar>) []
                 = Some ([] @ (x0 + sx * 0, y0 + sy * 0) # cells)"
    by (rule interpolate_loop_returns) (auto simp: sx_def sy_def)
  then show ?thesis
    using x1 y1 by (simp add: interpolate_def Let_def sx_def [symmetric] sy_def [symmetric])
qed

text \<open>Between two adjacent cells the line is the two cells.\<close>

lemma interpolate_step:
  assumes "ex \<in> {- 1, 0, 1}" "ey \<in> {- 1, 0, 1}" "(ex, ey) \<noteq> (0, 0)"
  shows "interpolate x0 y0 (x0 + ex) (y0 + ey) = Some [(x0, y0), (x0 + ex, y0 + ey)]"
proof -
  from assms consider
      "ex = 1" "ey = 0" | "ex = - 1" "ey = 0" | "ex = 0" "ey = 1" | "ex = 0" "ey = - 1"
    | "ex = 1" "ey = 1" | "ex = 1" "ey = - 1" | "ex = - 1" "ey = 1" | "ex = - 1" "ey = - 1"
    by auto
  then show ?thesis
    by cases
      (simp_all add: interpolate_def,
       (subst interpolate_loop.simps, simp, subst interpolate_loop.simps, simp)+)
qed

lemma interpolate_same: "interpolate x0 y0 x0 y0 = Some [(x0, y0)]"
  by (simp add: interpolate_def) (subst interpolate_loop.simps, simp)

lemma interpolate_adjacent:
  assumes "adjacent a b"
  shows "interpolate (fst a) (snd a) (fst b) (snd b) = Some (if a = b then [a] else [a, b])"
proof (cases "a = b")
  case True
  then show ?thesis by (simp add: interpolate_same)
next
  case False
  define ex where "ex = fst b - fst a"
  define ey where "ey = snd b - snd a"
  have "ex \<in> {- 1, 0, 1}" "ey \<in> {- 1, 0, 1}"
    using assms by (auto simp: adjacent_def ex_def ey_def)
  moreover have "(ex, ey) \<noteq> (0, 0)"
    using False by (auto simp: ex_def ey_def prod_eq_iff)
  ultimately have "interpolate (fst a) (snd a) (fst a + ex) (snd a + ey)
                   = Some [(fst a, snd a), (fst a + ex, snd a + ey)]"
    by (rule interpolate_step)
  then show ?thesis using False by (simp add: ex_def ey_def)
qed

section \<open>Properties of smoothenPath\<close>

lemma clearPath_snoc:
  "xs \<noteq> [] \<Longrightarrow> clearPath gr (xs @ [y]) = (clearPath gr xs \<and> clearSegment gr (last xs) y)"
  by (induction gr xs rule: clearPath.induct) auto

lemma clearSegment_adjacent:
  assumes "adjacent a b" "walkableCell gr a" "walkableCell gr b"
  shows "clearSegment gr a b"
  using assms by (simp add: clearSegment_def interpolate_adjacent)

text \<open>The loop of \<open>smoothenPath\<close> returns, and the new path keeps its first point.\<close>

lemma smoothen_loop_returns:
  "newPath \<noteq> [] \<Longrightarrow>
   \<exists>np. smoothen_loop gr s prev rest newPath = Some np \<and> np \<noteq> [] \<and> hd np = hd newPath"
proof (induction rest arbitrary: s prev newPath)
  case Nil
  then show ?case by simp
next
  case (Cons c rest)
  obtain cells where line: "interpolate (fst s) (snd s) (fst c) (snd c) = Some ((fst s, snd s) # cells)"
    using interpolate_returns by blast
  show ?case
  proof (cases "blocked gr ((fst s, snd s) # cells)")
    case True
    from Cons.IH [of "newPath @ [prev]" prev c] Cons.prems line True
    show ?thesis by auto
  next
    case False
    from Cons.IH [of newPath s c] Cons.prems line False
    show ?thesis by auto
  qed
qed

text \<open>
  On a raw path of walkable cells the loop keeps every committed segment, and the segment
  from the current start to the previous path point, clear.
\<close>

lemma smoothen_loop_clear:
  assumes "walkableCell gr s" "walkableCell gr prev" "list_all (walkableCell gr) rest"
    and "rawPath (prev # rest)" "clearSegment gr s prev" "clearPath gr newPath"
    and "newPath \<noteq> []" "last newPath = s"
    and "smoothen_loop gr s prev rest newPath = Some np"
  shows "clearPath gr (np @ [last (prev # rest)])"
  using assms
proof (induction rest arbitrary: s prev newPath)
  case Nil
  then show ?case by (simp add: clearPath_snoc)
next
  case (Cons c rest)
  obtain cells where line: "interpolate (fst s) (snd s) (fst c) (snd c) = Some ((fst s, snd s) # cells)"
    using interpolate_returns by blast
  have wc: "walkableCell gr c" and wr: "list_all (walkableCell gr) rest"
    and adj: "adjacent prev c" and raw: "rawPath (c # rest)"
    using Cons.prems by simp_all
  show ?case
  proof (cases "blocked gr ((fst s, snd s) # cells)")
    case True
    with Cons.prems(9) line
    have run: "smoothen_loop gr prev c rest (newPath @ [prev]) = Some np" by simp
    have "clearSegment gr prev c"
      using adj Cons.prems(2) wc by (rule clearSegment_adjacent)
    moreover have "clearPath gr (newPath @ [prev])"
      using Cons.prems by (simp add: clearPath_snoc)
    ultimately have "clearPath gr (np @ [last (c # rest)])"
      using Cons.IH [of prev c "newPath @ [prev]"] Cons.prems(2) wc wr raw run by simp
    then show ?thesis by simp
  next
    case False
    with Cons.prems(9) line
    have run: "smoothen_loop gr s c rest newPath = Some np" by simp
    have "list_all (walkableCell gr) cells"
      using False by (simp add: blocked_def list_ex_iff list_all_iff walkableCell_def)
    then have "clearSegment gr s c"
      using line Cons.prems(1) by (simp add: clearSegment_def)
    then have "clearPath gr (np @ [last (c # rest)])"
      using Cons.IH [of s c newPath] Cons.prems wc wr raw run by simp
    then show ?thesis by simp
  qed
qed

text \<open>
  C7, as the code has it. For a path that is not empty \<open>smoothenPath\<close> returns a path
  that begins with the first and ends with the last point of the input. When the input is
  a raw path (each point adjacent to the next) of walkable cells, every segment of the
  returned path is clear: its interpolation has walkable cells only.
\<close>

theorem smoothenPath_clear:
  assumes "path \<noteq> []"
  shows "\<exists>np. smoothenPath gr path = Some (Inr np) \<and> hd np = hd path \<and> last np = last path \<and>
              (rawPath path \<and> list_all (walkableCell gr) path \<longrightarrow> clearPath gr np)"
proof (cases path)
  case Nil
  with assms show ?thesis by simp
next
  case (Cons p0 ps)
  show ?thesis
  proof (cases ps)
    case Nil
    have "walkableCell gr p0 \<Longrightarrow> clearSegment gr p0 p0"
      by (simp add: clearSegment_def interpolate_same)
    then show ?thesis using Cons Nil by (simp add: smoothenPath_def)
  next
    case ps: (Cons p1 rest)
    obtain np where np: "smoothen_loop gr p0 p1 rest [p0] = Some np" "np \<noteq> []" "hd np = p0"
      using smoothen_loop_returns [of "[p0]" gr p0 p1 rest] by auto
    have res: "smoothenPath gr path = Some (Inr (np @ [last path]))"
      using Cons ps np(1) by (simp add: smoothenPath_def)
    have "clearPath gr (np @ [last path])"
      if "rawPath path" "list_all (walkableCell gr) path"
    proof -
      have "clearSegment gr p0 p1"
        using that Cons ps by (intro clearSegment_adjacent) simp_all
      then have "clearPath gr (np @ [last (p1 # rest)])"
        using that Cons ps np(1) by (intro smoothen_loop_clear [of gr p0 p1 rest "[p0]"]) simp_all
      then show ?thesis using Cons ps by simp
    qed
    then show ?thesis using res np(2,3) Cons by (simp add: hd_append)
  qed
qed

theorem smoothenPath_clear_witness:
  "\<exists>np. smoothenPath ringGrid [(0, 0), (1, 0), (2, 0), (2, 1), (2, 2)] = Some (Inr np) \<and>
        hd np = (0, 0) \<and> last np = (2, 2) \<and> clearPath ringGrid np"
proof -
  let ?path = "[(0, 0), (1, 0), (2, 0), (2, 1), (2, 2)] :: coord list"
  have "rawPath ?path \<and> list_all (walkableCell ringGrid) ?path"
    by (simp add: adjacent_def walkableCell_def isWalkableAt_def isInside_def ringGrid_def Node_def)
  with smoothenPath_clear [of ?path ringGrid] show ?thesis by auto
qed

text \<open>
  The claim C7 as stated fails on a path whose points are not adjacent: on the row with
  the wall in the middle, the path from the left cell to the right cell is returned as it
  is, and the interpolation of its one segment crosses the wall. An empty path makes
  \<open>smoothenPath\<close> throw.
\<close>

theorem smoothenPath_crosses_wall:
  "smoothenPath wallRow [(0, 0), (2, 0)] = Some (Inr [(0, 0), (2, 0)]) \<and>
   interpolate 0 0 2 0 = Some [(0, 0), (1, 0), (2, 0)] \<and>
   isWalkableAt wallRow 0 0 \<and> isWalkableAt wallRow 2 0 \<and> \<not> isWalkableAt wallRow 1 0 \<and>
   \<not> clearPath wallRow [(0, 0), (2, 0)] \<and>
   smoothenPath wallRow [] = Some (Inl TypeError)"
proof -
  have line: "interpolate 0 0 2 0 = Some [(0, 0), (1, 0), (2, 0)]"
    by (simp add: interpolate_def interpolate_loop.simps)
  show ?thesis
    by (simp add: line smoothenPath_def clearSegment_def walkableCell_def isWalkableAt_def
        isInside_def wallRow_def Node_def)
qed

section \<open>Properties of expandPath and compressPath\<close>

lemma unitStep_cases:
  assumes "unitStep u"
  obtains "u = (1, 0)" | "u = (- 1, 0)" | "u = (0, 1)" | "u = (0, - 1)"
    | "u = (1, 1)" | "u = (1, - 1)" | "u = (- 1, 1)" | "u = (- 1, - 1)"
  using assms by (cases u) (auto simp: unitStep_def)

text \<open>On a horizontal, vertical or diagonal run the error term of the loop is constant.\<close>

lemma interpolate_loop_run:
  fixes k i :: int
  assumes u: "unitStep (ux, uy)" and k: "0 < k" and i: "0 \<le> i" "i \<le> k"
    and sx: "sx = (if 0 < ux then 1 else - 1)" and sy: "sy = (if 0 < uy then 1 else - 1)"
  shows "interpolate_loop (X0 + k * ux) (Y0 + k * uy) (k * \<bar>ux\<bar>) (k * \<bar>uy\<bar>) sx sy
           (X0 + i * ux) (Y0 + i * uy) (k * \<bar>ux\<bar> - k * \<bar>uy\<bar>) line
         = Some (line @ map (\<lambda>j. (X0 + j * ux, Y0 + j * uy)) [i..k])"
  using i
proof (induction "nat (k - i)" arbitrary: i line)
  case 0
  then have "i = k" by simp
  then show ?case by (subst interpolate_loop.simps) simp
next
  case (Suc n)
  then have ik: "i < k" by linarith
  have IH: "interpolate_loop (X0 + k * ux) (Y0 + k * uy) (k * \<bar>ux\<bar>) (k * \<bar>uy\<bar>) sx sy
           (X0 + (i + 1) * ux) (Y0 + (i + 1) * uy) (k * \<bar>ux\<bar> - k * \<bar>uy\<bar>) (line @ [(X0 + i * ux, Y0 + i * uy)])
         = Some ((line @ [(X0 + i * ux, Y0 + i * uy)]) @ map (\<lambda>j. (X0 + j * ux, Y0 + j * uy)) [i + 1..k])"
    using Suc.hyps(2) Suc.prems ik by (intro Suc.hyps(1)) auto
  have up: "[i..k] = i # [i + 1..k]" using ik by (simp add: upto.simps)
  from u show ?case
  proof (cases rule: unitStep_cases)
    case 1 then show ?thesis using ik k IH sx sy up
      by (subst interpolate_loop.simps) (simp add: algebra_simps)
  next
    case 2 then show ?thesis using ik k IH sx sy up
      by (subst interpolate_loop.simps) (simp add: algebra_simps)
  next
    case 3 then show ?thesis using ik k IH sx sy up
      by (subst interpolate_loop.simps) (simp add: algebra_simps)
  next
    case 4 then show ?thesis using ik k IH sx sy up
      by (subst interpolate_loop.simps) (simp add: algebra_simps)
  next
    case 5 then show ?thesis using ik k IH sx sy up
      by (subst interpolate_loop.simps) (simp add: algebra_simps)
  next
    case 6 then show ?thesis using ik k IH sx sy up
      by (subst interpolate_loop.simps) (simp add: algebra_simps)
  next
    case 7 then show ?thesis using ik k IH sx sy up
      by (subst interpolate_loop.simps) (simp add: algebra_simps)
  next
    case 8 then show ?thesis using ik k IH sx sy up
      by (subst interpolate_loop.simps) (simp add: algebra_simps)
  qed
qed

lemma octilinear_run:
  assumes "octilinear a b"
  shows "unitStep (direction a b)" and "0 < steps a b"
    and "b = shift a (direction a b) (steps a b)"
proof -
  obtain ax ay bx "by" where ab: "a = (ax, ay)" "b = (bx, by)" by (cases a, cases b)
  from assms ab have ne: "ax \<noteq> bx \<or> ay \<noteq> by"
    and oct: "ax = bx \<or> ay = by \<or> \<bar>bx - ax\<bar> = \<bar>by - ay\<bar>"
    by (auto simp: octilinear_def)
  show "unitStep (direction a b)"
    using ne by (auto simp: unitStep_def direction_def ab sgn_if)
  show "0 < steps a b"
    using ne by (auto simp: steps_def ab)
  show "b = shift a (direction a b) (steps a b)"
    using ne oct by (auto simp: shift_def direction_def steps_def ab sgn_if max_def)
qed

lemma interpolate_run:
  fixes k :: int
  assumes u: "unitStep (ux, uy)" and k: "0 < k"
  shows "interpolate X0 Y0 (X0 + k * ux) (Y0 + k * uy)
         = Some (map (\<lambda>j. (X0 + j * ux, Y0 + j * uy)) [0..k])"
proof -
  have abs: "\<bar>k * ux\<bar> = k * \<bar>ux\<bar>" "\<bar>k * uy\<bar> = k * \<bar>uy\<bar>"
    using k by (simp_all add: abs_mult)
  have sg: "(0 < k * ux) = (0 < ux)" "(0 < k * uy) = (0 < uy)"
    using k by (simp_all add: zero_less_mult_iff)
  have "interpolate X0 Y0 (X0 + k * ux) (Y0 + k * uy)
        = interpolate_loop (X0 + k * ux) (Y0 + k * uy) (k * \<bar>ux\<bar>) (k * \<bar>uy\<bar>)
            (if 0 < ux then 1 else - 1) (if 0 < uy then 1 else - 1)
            (X0 + 0 * ux) (Y0 + 0 * uy) (k * \<bar>ux\<bar> - k * \<bar>uy\<bar>) []"
    by (simp add: interpolate_def Let_def abs sg split del: if_split)
  also have "\<dots> = Some ([] @ map (\<lambda>j. (X0 + j * ux, Y0 + j * uy)) [0..k])"
    using u k by (intro interpolate_loop_run) simp_all
  finally show ?thesis by simp
qed

lemma interpolate_octilinear:
  assumes "octilinear a b"
  shows "interpolate (fst a) (snd a) (fst b) (snd b)
         = Some (map (shift a (direction a b)) [0..steps a b])"
proof -
  define ux uy k where "ux = fst (direction a b)" and "uy = snd (direction a b)" and "k = steps a b"
  from octilinear_run(1,2) [OF assms]
  have u: "unitStep (ux, uy)" and k: "0 < k"
    by (simp_all add: ux_def uy_def k_def)
  from octilinear_run(3) [OF assms]
  have "fst b = fst (shift a (direction a b) (steps a b))"
    and "snd b = snd (shift a (direction a b) (steps a b))"
    by (rule arg_cong [where f = fst], rule arg_cong [where f = snd])
  then have b: "fst b = fst a + k * ux" "snd b = snd a + k * uy"
    by (simp_all add: ux_def uy_def k_def shift_def)
  have sh: "shift a (direction a b) = (\<lambda>j. (fst a + j * ux, snd a + j * uy))"
    by (simp add: shift_def [abs_def] ux_def uy_def)
  show ?thesis
    unfolding b sh k_def [symmetric] using u k by (rule interpolate_run)
qed

lemma turnsFrom_octPath: "turnsFrom u path \<Longrightarrow> octPath path"
  by (induction u path rule: turnsFrom.induct) auto

lemma upto_last: "(i::int) \<le> j \<Longrightarrow> [i..j] = [i..j - 1] @ [j]"
  by (rule upto_rec2)

lemma upto_first: "(i::int) \<le> j \<Longrightarrow> [i..j] = i # [i + 1..j]"
  by (simp add: upto.simps)

lemma expand_loop_cells:
  "octPath path \<Longrightarrow> expand_loop path expanded = Some (expanded @ cells path)"
proof (induction path arbitrary: expanded rule: cells.induct)
  case (1 a b rest)
  then have oct: "octilinear a b" and rest: "octPath (b # rest)" by simp_all
  from octilinear_run(2) [OF oct] have k: "0 \<le> steps a b" by simp
  have "butlast (map (shift a (direction a b)) [0..steps a b])
        = map (shift a (direction a b)) [0..steps a b - 1]"
    using k by (simp add: upto_last [of 0 "steps a b"])
  then show ?case
    using "1.IH" [OF rest] by (simp add: interpolate_octilinear [OF oct])
qed simp_all

lemma cells_start:
  assumes "octPath (c # rest)"
  shows "cells (c # rest) @ [last (c # rest)] = c # tl (cells (c # rest) @ [last (c # rest)])"
proof (cases rest)
  case Nil
  then show ?thesis by simp
next
  case (Cons d r)
  with assms have "octilinear c d" by simp
  from octilinear_run(2) [OF this] have "[0..steps c d - 1] = 0 # [1..steps c d - 1]"
    by (simp add: upto_first)
  then show ?thesis using Cons by (simp add: shift_def)
qed

text \<open>
  The normalized directions of two unit steps are equal, in both components, exactly
  when the steps are equal.
\<close>

lemma normalize_unit_eq:
  assumes "unitStep u" "unitStep v"
  shows "(neq (fst (normalize (fst v) (snd v))) (fst (normalize (fst u) (snd u))) \<and>
          neq (snd (normalize (fst v) (snd v))) (snd (normalize (fst u) (snd u)))) \<longleftrightarrow> u = v"
  using assms(1)
proof (cases rule: unitStep_cases)
  case 1 with assms(2) show ?thesis by (cases rule: unitStep_cases) (simp_all add: normalize_def Let_def)
next
  case 2 with assms(2) show ?thesis by (cases rule: unitStep_cases) (simp_all add: normalize_def Let_def)
next
  case 3 with assms(2) show ?thesis by (cases rule: unitStep_cases) (simp_all add: normalize_def Let_def)
next
  case 4 with assms(2) show ?thesis by (cases rule: unitStep_cases) (simp_all add: normalize_def Let_def)
next
  case 5 with assms(2) show ?thesis by (cases rule: unitStep_cases) (simp_all add: normalize_def Let_def)
next
  case 6 with assms(2) show ?thesis by (cases rule: unitStep_cases) (simp_all add: normalize_def Let_def)
next
  case 7 with assms(2) show ?thesis by (cases rule: unitStep_cases) (simp_all add: normalize_def Let_def)
next
  case 8 with assms(2) show ?thesis by (cases rule: unitStep_cases) (simp_all add: normalize_def Let_def)
qed

lemma shift_diff:
  "fst (shift a u (i + 1)) - fst (shift a u i) = fst u"
  "snd (shift a u (i + 1)) - snd (shift a u i) = snd u"
  by (simp_all add: shift_def algebra_simps)

text \<open>Along a straight run the loop of \<open>compressPath\<close> stores no point.\<close>

lemma compress_straight:
  fixes i k :: int
  assumes "unitStep u" "i \<le> k"
  shows "compress_loop (shift a u i) (normalize (fst u) (snd u)) (map (shift a u) [i + 1..k] @ T) compressed
         = compress_loop (shift a u k) (normalize (fst u) (snd u)) T compressed"
  using assms(2)
proof (induction "nat (k - i)" arbitrary: i)
  case 0
  then have "i = k" by simp
  then show ?case by simp
next
  case (Suc n)
  then have ik: "i + 1 \<le> k" by linarith
  have same: "neq (fst (normalize (fst u) (snd u))) (fst (normalize (fst u) (snd u))) \<and>
              neq (snd (normalize (fst u) (snd u))) (snd (normalize (fst u) (snd u)))"
    using normalize_unit_eq [OF assms(1) assms(1)] by simp
  have "compress_loop (shift a u (i + 1)) (normalize (fst u) (snd u)) (map (shift a u) [i + 1 + 1..k] @ T) compressed
         = compress_loop (shift a u k) (normalize (fst u) (snd u)) T compressed"
    using Suc.hyps(2) ik by (intro Suc.hyps(1)) auto
  then show ?case
    using same by (simp add: upto_first [OF ik] shift_diff Let_def)
qed

text \<open>At a turn it stores the point where the direction changes.\<close>

lemma compress_turn:
  assumes "unitStep u" "unitStep v" "v \<noteq> u"
  shows "compress_loop p (normalize (fst u) (snd u)) (shift p v 1 # T) compressed
         = compress_loop (shift p v 1) (normalize (fst v) (snd v)) T (compressed @ [p])"
proof -
  have "\<not> (neq (fst (normalize (fst v) (snd v))) (fst (normalize (fst u) (snd u))) \<and>
            neq (snd (normalize (fst v) (snd v))) (snd (normalize (fst u) (snd u))))"
    using normalize_unit_eq [OF assms(1,2)] assms(3) by simp
  moreover have "fst (shift p v 1) - fst p = fst v" "snd (shift p v 1) - snd p = snd v"
    by (simp_all add: shift_def)
  ultimately show ?thesis by (auto simp: Let_def)
qed

lemma run_split:
  fixes k :: int
  assumes "0 < k"
  shows "map (shift a u) [0..k - 1] @ shift a u k # T
         = a # shift a u 1 # map (shift a u) [2..k] @ T"
proof -
  have "[0..k] = 0 # 1 # [2..k]"
    using assms by (simp add: upto_first [of 0 k] upto_first [of 1 k])
  then have "map (shift a u) [0..k] = shift a u 0 # shift a u 1 # map (shift a u) [2..k]"
    by simp
  moreover have "map (shift a u) [0..k] = map (shift a u) [0..k - 1] @ [shift a u k]"
    using assms by (simp add: upto_last [of 0 k])
  moreover have "shift a u 0 = a"
    by (simp add: shift_def)
  ultimately show ?thesis by simp
qed

lemma compress_straight_from_1:
  fixes k :: int
  assumes "unitStep u" "0 < k"
  shows "compress_loop (shift a u 1) (normalize (fst u) (snd u)) (map (shift a u) [2..k] @ T) compressed
         = compress_loop (shift a u k) (normalize (fst u) (snd u)) T compressed"
  using compress_straight [OF assms(1), of 1 k a T compressed] assms(2) by simp

lemma compress_from:
  assumes "unitStep u" "turnsFrom u (b # rest)"
  shows "compress_loop b (normalize (fst u) (snd u))
           (tl (cells (b # rest) @ [last (b # rest)])) compressed
         = compressed @ b # rest"
  using assms
proof (induction rest arbitrary: b u compressed)
  case Nil
  then show ?case by simp
next
  case (Cons c rest)
  define v k where "v = direction b c" and "k = steps b c"
  define T where "T = tl (cells (c # rest) @ [last (c # rest)])"
  from Cons.prems have oct: "octilinear b c" and vu: "v \<noteq> u" and tf: "turnsFrom v (c # rest)"
    by (simp_all add: v_def)
  from octilinear_run [OF oct] have v: "unitStep v" and k: "0 < k" and c: "shift b v k = c"
    by (simp_all add: v_def k_def)
  have "cells (c # rest) @ [last (c # rest)] = c # T"
    unfolding T_def using tf by (intro cells_start turnsFrom_octPath)
  then have "cells (b # c # rest) @ [last (b # c # rest)] = map (shift b v) [0..k - 1] @ shift b v k # T"
    unfolding c by (simp add: v_def k_def)
  also have "\<dots> = b # shift b v 1 # map (shift b v) [2..k] @ T"
    using k by (rule run_split)
  finally have "tl (cells (b # c # rest) @ [last (b # c # rest)]) = shift b v 1 # map (shift b v) [2..k] @ T"
    by simp
  then have "compress_loop b (normalize (fst u) (snd u))
               (tl (cells (b # c # rest) @ [last (b # c # rest)])) compressed
             = compress_loop (shift b v 1) (normalize (fst v) (snd v))
                 (map (shift b v) [2..k] @ T) (compressed @ [b])"
    using compress_turn [OF Cons.prems(1) v vu] by simp
  also have "\<dots> = compress_loop (shift b v k) (normalize (fst v) (snd v)) T (compressed @ [b])"
    using v k by (rule compress_straight_from_1)
  also have "\<dots> = (compressed @ [b]) @ c # rest"
    unfolding T_def c by (rule Cons.IH [OF v tf])
  finally show ?case by simp
qed

lemma compressPath_two:
  "compressPath (s # p # rest) =
     compress_loop p (normalize (fst p - fst s) (snd p - snd s)) rest [s]"
  by (cases rest) (simp_all add: compressPath_def)

text \<open>
  C8, as the code has it. For a path of turn points (at least two points, every segment
  horizontal, vertical or diagonal and not empty, a change of direction at every interior
  point) \<open>expandPath\<close> returns the rasterized path and \<open>compressPath\<close> recovers the
  turn points from it.
\<close>

theorem compressPath_expandPath:
  assumes "turnPoints path"
  shows "\<exists>expanded. expandPath path = Some expanded \<and> compressPath expanded = path"
proof -
  from assms obtain a b rest where path: "path = a # b # rest"
    and oct: "octilinear a b" and tf: "turnsFrom (direction a b) (b # rest)"
    by (auto simp: turnPoints_def split: list.splits)
  define u k where "u = direction a b" and "k = steps a b"
  define T where "T = tl (cells (b # rest) @ [last (b # rest)])"
  from octilinear_run [OF oct] have u: "unitStep u" and k: "0 < k" and b: "shift a u k = b"
    by (simp_all add: u_def k_def)
  have op: "octPath path"
    using path oct tf turnsFrom_octPath by auto
  have bT: "cells (b # rest) @ [last (b # rest)] = b # T"
    unfolding T_def using tf by (intro cells_start turnsFrom_octPath)
  have "cells path @ [last path] = map (shift a u) [0..k - 1] @ shift a u k # T"
    unfolding b using bT by (simp add: path u_def k_def)
  also have "\<dots> = a # shift a u 1 # map (shift a u) [2..k] @ T"
    using k by (rule run_split)
  finally have e: "cells path @ [last path] = a # shift a u 1 # map (shift a u) [2..k] @ T" .
  have "expand_loop path [] = Some ([] @ cells path)"
    using op by (rule expand_loop_cells)
  moreover have "\<not> length path < 2"
    using path by simp
  ultimately have ex: "expandPath path = Some (cells path @ [last path])"
    by (simp add: expandPath_def)
  have "fst (shift a u 1) - fst a = fst u" "snd (shift a u 1) - snd a = snd u"
    by (simp_all add: shift_def)
  then have "compressPath (cells path @ [last path])
        = compress_loop (shift a u 1) (normalize (fst u) (snd u)) (map (shift a u) [2..k] @ T) [a]"
    unfolding e compressPath_two by simp
  also have "\<dots> = compress_loop (shift a u k) (normalize (fst u) (snd u)) T [a]"
    using u k by (rule compress_straight_from_1)
  also have "\<dots> = [a] @ b # rest"
    unfolding T_def b using tf by (intro compress_from [OF u]) (simp add: u_def)
  finally show ?thesis using ex path by simp
qed

theorem compressPath_expandPath_witness:
  "\<exists>expanded. expandPath [(0, 0), (2, 2), (4, 2), (4, 0)] = Some expanded \<and>
     compressPath expanded = [(0, 0), (2, 2), (4, 2), (4, 0)]"
proof -
  have "turnPoints [(0, 0), (2, 2), (4, 2), (4, 0)]"
    by (simp add: turnPoints_def octilinear_def direction_def)
  then show ?thesis by (rule compressPath_expandPath)
qed

text \<open>
  The claim C8 as stated fails on a segment that is not horizontal, vertical or diagonal:
  the line from \<open>(0, 0)\<close> to \<open>(2, 1)\<close> is rasterized with a turn at \<open>(1, 0)\<close>, which
  \<open>compressPath\<close> keeps. It fails on a path of a single point as well, which
  \<open>expandPath\<close> turns into the empty path.
\<close>

theorem compressPath_expandPath_not_inverse:
  "expandPath [(0, 0), (2, 1)] = Some [(0, 0), (1, 0), (2, 1)] \<and>
   compressPath [(0, 0), (1, 0), (2, 1)] = [(0, 0), (1, 0), (2, 1)] \<and>
   expandPath [(0, 0)] = Some [] \<and> compressPath [] = []"
proof -
  have "interpolate 0 0 2 1 = Some [(0, 0), (1, 0), (2, 1)]"
    by (simp add: interpolate_def interpolate_loop.simps)
  then show ?thesis
    by (simp add: expandPath_def compressPath_def normalize_def Let_def)
qed

section \<open>Paths and steps\<close>

lemma stepCost_ge_1: "1 \<le> stepCost u v"
  by (simp add: stepCost_def)

lemma stepCost_le_sqrt2: "stepCost u v \<le> sqrt 2"
  by (simp add: stepCost_def)

lemma pathCost_nonneg: "0 \<le> pathCost path"
proof (induction path rule: pathCost.induct)
  case (1 u v rest)
  then show ?case using stepCost_ge_1 [of u v] by simp
qed simp_all

lemma pathCost_snoc:
  "path \<noteq> [] \<Longrightarrow> pathCost (path @ [t]) = pathCost path + stepCost (last path) t"
  by (induction path rule: pathCost.induct) simp_all

lemma validPath_snoc:
  "path \<noteq> [] \<Longrightarrow>
   validPath gr dm (path @ [t]) = (validPath gr dm path \<and> edge gr dm (last path) t)"
  by (induction gr dm path rule: validPath.induct) auto

lemma validPath_nonempty: "validPath gr dm path \<Longrightarrow> path \<noteq> []"
  by auto

lemma pathCost_two_steps:
  assumes "3 \<le> length path"
  shows "2 \<le> pathCost path"
proof -
  from assms obtain a b c rest where "path = a # b # c # rest"
    by (cases path; cases "tl path"; cases "tl (tl path)") auto
  then show ?thesis
    using stepCost_ge_1 [of a b] stepCost_ge_1 [of b c] pathCost_nonneg [of "c # rest"] by simp
qed

lemma cellIf_mem: "v \<in> set (cellIf gr allowed x y) \<longleftrightarrow> allowed \<and> isWalkableAt gr x y \<and> v = (x, y)"
  by (auto simp: cellIf_def)


lemma isWalkableAt_sameShape:
  "sameShape gr gr' \<Longrightarrow> isWalkableAt gr x y = isWalkableAt gr' x y"
  by (simp add: sameShape_def isWalkableAt_def isInside_def)

lemma getNeighbors_sameShape:
  assumes "sameShape gr gr'"
  shows "getNeighbors gr (nodes gr u) dm = getNeighbors gr' (nodes gr' u) dm"
proof -
  have xy: "n_x (nodes gr u) = n_x (nodes gr' u)" "n_y (nodes gr u) = n_y (nodes gr' u)"
    using assms unfolding sameShape_def by blast+
  show ?thesis
    unfolding getNeighbors_def cellIf_def xy isWalkableAt_sameShape [OF assms] ..
qed

lemma edge_sameShape: "sameShape gr gr' \<Longrightarrow> edge gr dm u v = edge gr' dm u v"
  by (simp add: edge_def getNeighbors_sameShape)

lemma validPath_sameShape:
  "sameShape gr gr' \<Longrightarrow> validPath gr dm path = validPath gr' dm path"
  by (induction gr dm path rule: validPath.induct) (simp_all add: edge_sameShape)

lemma pathBetween_sameShape:
  "sameShape gr gr' \<Longrightarrow> pathBetween gr dm a b path = pathBetween gr' dm a b path"
  by (simp add: pathBetween_def validPath_sameShape)

lemma walkableCell_sameShape:
  "sameShape gr gr' \<Longrightarrow> walkableCell gr c = walkableCell gr' c"
  by (simp add: walkableCell_def isWalkableAt_sameShape)

lemma diagonalAllowed_mono:
  "diagonalAllowed dm a b \<Longrightarrow> (a \<Longrightarrow> a') \<Longrightarrow> (b \<Longrightarrow> b') \<Longrightarrow> diagonalAllowed dm a' b'"
  by (cases dm) (auto simp: diagonalAllowed_def)

lemma getNeighbors_mem:
  "v \<in> set (getNeighbors gr nd dm) \<longleftrightarrow>
     (isWalkableAt gr (n_x nd) (n_y nd - 1) \<and> v = (n_x nd, n_y nd - 1)) \<or>
     (isWalkableAt gr (n_x nd + 1) (n_y nd) \<and> v = (n_x nd + 1, n_y nd)) \<or>
     (isWalkableAt gr (n_x nd) (n_y nd + 1) \<and> v = (n_x nd, n_y nd + 1)) \<or>
     (isWalkableAt gr (n_x nd - 1) (n_y nd) \<and> v = (n_x nd - 1, n_y nd)) \<or>
     (diagonalAllowed dm (isWalkableAt gr (n_x nd - 1) (n_y nd)) (isWalkableAt gr (n_x nd) (n_y nd - 1)) \<and>
        isWalkableAt gr (n_x nd - 1) (n_y nd - 1) \<and> v = (n_x nd - 1, n_y nd - 1)) \<or>
     (diagonalAllowed dm (isWalkableAt gr (n_x nd) (n_y nd - 1)) (isWalkableAt gr (n_x nd + 1) (n_y nd)) \<and>
        isWalkableAt gr (n_x nd + 1) (n_y nd - 1) \<and> v = (n_x nd + 1, n_y nd - 1)) \<or>
     (diagonalAllowed dm (isWalkableAt gr (n_x nd + 1) (n_y nd)) (isWalkableAt gr (n_x nd) (n_y nd + 1)) \<and>
        isWalkableAt gr (n_x nd + 1) (n_y nd + 1) \<and> v = (n_x nd + 1, n_y nd + 1)) \<or>
     (diagonalAllowed dm (isWalkableAt gr (n_x nd) (n_y nd + 1)) (isWalkableAt gr (n_x nd - 1) (n_y nd)) \<and>
        isWalkableAt gr (n_x nd - 1) (n_y nd + 1) \<and> v = (n_x nd - 1, n_y nd + 1))"
  by (simp add: getNeighbors_def Let_def cellIf_mem)

text \<open>Blocking cells only removes steps.\<close>

lemma edge_mono:
  assumes "width gr = width gr'" "height gr = height gr'"
    and xy: "n_x (nodes gr u) = n_x (nodes gr' u)" "n_y (nodes gr u) = n_y (nodes gr' u)"
    and w: "\<And>c. walkableCell gr c \<Longrightarrow> walkableCell gr' c"
    and e: "edge gr dm u v"
  shows "edge gr' dm u v"
proof -
  have iw: "isWalkableAt gr x y \<Longrightarrow> isWalkableAt gr' x y" for x y
    using w [of "(x, y)"] by (simp add: walkableCell_def)
  have da: "diagonalAllowed dm (isWalkableAt gr x1 y1) (isWalkableAt gr x2 y2) \<Longrightarrow>
            diagonalAllowed dm (isWalkableAt gr' x1 y1) (isWalkableAt gr' x2 y2)" for x1 y1 x2 y2
    by (erule diagonalAllowed_mono) (rule iw, assumption)+
  from e have "v \<in> set (getNeighbors gr (nodes gr u) dm)"
    by (simp add: edge_def)
  then have "v \<in> set (getNeighbors gr' (nodes gr' u) dm)"
    unfolding getNeighbors_mem xy [symmetric]
    by (elim disjE conjE) (simp_all add: iw da)
  then show ?thesis by (simp add: edge_def)
qed

lemma edge_walkable: "edge gr dm u v \<Longrightarrow> walkableCell gr v"
  unfolding edge_def getNeighbors_mem walkableCell_def by auto

lemma subGrid_edge:
  assumes "subGrid pb gr" "freshGrid (pb_grid pb)" "edge gr dm u v"
  shows "edge (pb_grid pb) dm u v"
proof (rule edge_mono [OF _ _ _ _ _ assms(3)])
  show "width gr = width (pb_grid pb)" "height gr = height (pb_grid pb)"
    using assms(1) by (simp_all add: subGrid_def)
  have "n_x (nodes gr u) = fst u" "n_y (nodes gr u) = snd u"
    using assms(1) unfolding subGrid_def by blast+
  moreover have "n_x (nodes (pb_grid pb) u) = fst u" "n_y (nodes (pb_grid pb) u) = snd u"
    using assms(2) unfolding freshGrid_def by blast+
  ultimately show "n_x (nodes gr u) = n_x (nodes (pb_grid pb) u)"
    "n_y (nodes gr u) = n_y (nodes (pb_grid pb) u)" by simp_all
  show "walkableCell gr c \<Longrightarrow> walkableCell (pb_grid pb) c" for c
    using assms(1) unfolding subGrid_def by blast
qed

lemma subGrid_validPath:
  "subGrid pb gr \<Longrightarrow> freshGrid (pb_grid pb) \<Longrightarrow> validPath gr dm path \<Longrightarrow> validPath (pb_grid pb) dm path"
  by (induction gr dm path rule: validPath.induct) (auto dest: subGrid_edge)

section \<open>Trails\<close>

lemma trail_last: "trail st c path \<Longrightarrow> path \<noteq> [] \<and> last path = c"
  by (induction rule: trail.induct) auto

lemma trail_frame:
  assumes "trail st c path" and "\<And>x. x \<in> set path \<Longrightarrow> n_parent (st' x) = n_parent (st x)"
  shows "trail st' c path"
  using assms
proof (induction rule: trail.induct)
  case (trail_root c)
  from trail_root.prems [of c] trail_root.hyps have "n_parent (st' c) = None" by simp
  then show ?case by (rule trail.trail_root)
next
  case (trail_step c p path)
  from trail_step.prems [of c] trail_step.hyps(1) have "n_parent (st' c) = Some p" by simp
  moreover have "trail st' p path"
    by (rule trail_step.IH) (simp add: trail_step.prems)
  ultimately show ?case by (rule trail.trail_step)
qed

lemma trail_snoc: "trail st c path \<Longrightarrow> \<exists>xs. path = xs @ [c]"
  using trail_last [of st c path] by (cases path rule: rev_cases) auto

lemma trail_backtrace_loop:
  assumes "trail st c path" and xy: "\<And>x. (n_x (st x), n_y (st x)) = x"
  shows "backtrace_loop st (st c) acc = Some (acc @ rev (butlast path))"
  using assms(1)
proof (induction arbitrary: acc rule: trail.induct)
  case (trail_root c)
  then show ?case by (subst backtrace_loop.simps) simp
next
  case (trail_step c p path)
  from trail_snoc [OF trail_step.hyps(2)] obtain xs where xs: "path = xs @ [p]" by blast
  have "backtrace_loop st (st c) acc = backtrace_loop st (st p) (acc @ [(n_x (st p), n_y (st p))])"
    using trail_step.hyps(1) by (subst backtrace_loop.simps) simp
  also have "\<dots> = backtrace_loop st (st p) (acc @ [p])"
    by (simp add: xy)
  also have "\<dots> = Some ((acc @ [p]) @ rev (butlast path))"
    by (rule trail_step.IH)
  finally show ?case by (simp add: xs butlast_append)
qed

lemma trail_backtrace:
  assumes "trail st c path" and xy: "\<And>x. (n_x (st x), n_y (st x)) = x"
  shows "backtrace st (st c) = Some path"
proof -
  from trail_snoc [OF assms(1)] obtain xs where xs: "path = xs @ [c]" by blast
  show ?thesis
    using trail_backtrace_loop [OF assms, of "[c]"] xy [of c] by (simp add: backtrace_def xs)
qed

section \<open>The minimum of the open list\<close>

lemma popMin_min:
  assumes "\<And>c. c \<in> set (b # cs) \<Longrightarrow> n_f (st c) = Num (fv c)"
  shows "popMin st b cs \<in> set (b # cs) \<and> (\<forall>c\<in>set (b # cs). fv (popMin st b cs) \<le> fv c)"
  using assms
proof (induction cs arbitrary: b)
  case Nil
  then show ?case by simp
next
  case (Cons a cs)
  let ?b' = "if nlt (cmpF st a b) (Num 0) then a else b"
  have fa: "n_f (st a) = Num (fv a)" and fb: "n_f (st b) = Num (fv b)"
    using Cons.prems by simp_all
  have b': "?b' \<in> {a, b}" "fv ?b' \<le> fv a" "fv ?b' \<le> fv b"
    using fa fb by (auto simp: cmpF_def)
  have "popMin st ?b' cs \<in> set (?b' # cs) \<and> (\<forall>c\<in>set (?b' # cs). fv (popMin st ?b' cs) \<le> fv c)"
    using Cons.prems b'(1) by (intro Cons.IH) auto
  then show ?case
    using b' by (auto simp del: if_split split: if_splits)
qed

section \<open>cleanUp\<close>

lemma resetNode_idem: "resetNode (resetNode nd) = resetNode nd"
  by (simp add: resetNode_def)

lemma cleanUp_loop_flat:
  "cleanUp_loop st (flat cs) ex c =
     (if c \<in> set cs \<and> Some c \<noteq> ex then resetNode (st c) else st c)"
proof (induction cs arbitrary: st)
  case Nil
  then show ?case by simp
next
  case (Cons a cs)
  show ?case
    by (cases a) (auto simp: Cons.IH resetNode_idem)
qed

section \<open>The relaxation of one neighbour\<close>

lemma tentative_plain:
  assumes "\<not> ftruthy (avoidStaircase fd)"
    and "n_x (st u) = fst u" "n_y (st u) = snd u" "n_x (st v) = fst v" "n_y (st v) = snd v"
    and "n_g (st u) = Num gu"
  shows "tentative fd st u v = (st, Num (gu + stepCost u v))"
  using assms by (simp add: tentative_def stepCost_def)

lemma relax_skip:
  assumes "\<not> ftruthy (avoidStaircase fd)"
    and "n_x (r_nodes rs u) = fst u" "n_y (r_nodes rs u) = snd u"
    and "n_x (r_nodes rs v) = fst v" "n_y (r_nodes rs v) = snd v"
    and "n_g (r_nodes rs u) = Num gu"
    and "n_closed (r_nodes rs v) \<or>
         (n_opened (r_nodes rs v) \<and> \<not> nlt (Num (gu + stepCost u v)) (n_g (r_nodes rs v)))"
  shows "r_nodes (relaxNeighbor fd endX endY u rs v) = r_nodes rs"
    and "r_openList (relaxNeighbor fd endX endY u rs v) = r_openList rs"
    and "r_dirtyNodes (relaxNeighbor fd endX endY u rs v) = r_dirtyNodes rs"
  using assms(7) tentative_plain [OF assms(1-6)]
  by (auto simp: relaxNeighbor_def Let_def)

lemma relax_result:
  assumes av: "\<not> ftruthy (avoidStaircase fd)" and w: "weight fd = Num 1"
    and h: "heuristicIs fd hf"
    and xy: "n_x (r_nodes rs u) = fst u" "n_y (r_nodes rs u) = snd u"
      "n_x (r_nodes rs v) = fst v" "n_y (r_nodes rs v) = snd v"
    and gu: "n_g (r_nodes rs u) = Num gu"
    and hv: "n_opened (r_nodes rs v) \<Longrightarrow> n_h (r_nodes rs v) = Num (hAt hf (endX, endY) v)"
      "\<not> n_opened (r_nodes rs v) \<Longrightarrow> \<not> truthy (n_h (r_nodes rs v))"
    and nc: "\<not> n_closed (r_nodes rs v)"
    and better: "\<not> n_opened (r_nodes rs v) \<or> nlt (Num (gu + stepCost u v)) (n_g (r_nodes rs v))"
  shows "r_nodes (relaxNeighbor fd endX endY u rs v) =
           (r_nodes rs)(v := (r_nodes rs v)\<lparr>n_g := Num (gu + stepCost u v),
              n_h := Num (hAt hf (endX, endY) v),
              n_f := Num (gu + stepCost u v + hAt hf (endX, endY) v),
              n_opened := True, n_parent := Some u\<rparr>)"
    and "r_openList (relaxNeighbor fd endX endY u rs v) =
           (if n_opened (r_nodes rs v) then r_openList rs else r_openList rs @ [v])"
    and "r_dirtyNodes (relaxNeighbor fd endX endY u rs v) =
           (if n_opened (r_nodes rs v) then r_dirtyNodes rs else r_dirtyNodes rs @ [snd v, fst v])"
proof -
  have t: "tentative fd (r_nodes rs) u v = (r_nodes rs, Num (gu + stepCost u v))"
    using av xy gu by (rule tentative_plain)
  have "heuristic fd (Num (real_of_int \<bar>fst v - endX\<bar>)) (Num (real_of_int \<bar>snd v - endY\<bar>))
        = Num (hAt hf (endX, endY) v)"
    using h abs_ge_zero [of "fst v - endX"] abs_ge_zero [of "snd v - endY"]
    unfolding heuristicIs_def hAt_def fst_conv snd_conv by blast
  then have h': "(if truthy (n_h (r_nodes rs v)) then n_h (r_nodes rs v)
          else nmul (weight fd)
                 (heuristic fd (Num (real_of_int \<bar>fst v - endX\<bar>)) (Num (real_of_int \<bar>snd v - endY\<bar>))))
         = Num (hAt hf (endX, endY) v)"
    using hv w by (cases "n_opened (r_nodes rs v)") auto
  show "r_nodes (relaxNeighbor fd endX endY u rs v) =
           (r_nodes rs)(v := (r_nodes rs v)\<lparr>n_g := Num (gu + stepCost u v),
              n_h := Num (hAt hf (endX, endY) v),
              n_f := Num (gu + stepCost u v + hAt hf (endX, endY) v),
              n_opened := True, n_parent := Some u\<rparr>)"
  proof -
    let ?B = "(r_nodes rs v)\<lparr>n_g := Num (gu + stepCost u v),
              n_h := Num (hAt hf (endX, endY) v),
              n_f := Num (gu + stepCost u v + hAt hf (endX, endY) v),
              n_opened := True, n_parent := Some u\<rparr>"
    let ?A = "(r_nodes rs v)\<lparr>n_g := Num (gu + stepCost u v),
              n_h := Num (hAt hf (endX, endY) v),
              n_f := Num (gu + stepCost u v + hAt hf (endX, endY) v),
              n_parent := Some u\<rparr>"
    show ?thesis
    proof (cases "n_opened (r_nodes rs v)")
      case True
      have "r_nodes (relaxNeighbor fd endX endY u rs v) = (r_nodes rs)(v := ?A)"
        using nc better True by (simp add: relaxNeighbor_def Let_def t xy h')
      moreover have "?A = ?B"
        using True by (intro node.equality) simp_all
      ultimately show ?thesis by (simp only:)
    next
      case False
      have "r_nodes (relaxNeighbor fd endX endY u rs v) = (r_nodes rs)(v := ?A\<lparr>n_opened := True\<rparr>)"
        using nc better False by (simp add: relaxNeighbor_def Let_def t xy h')
      moreover have "?A\<lparr>n_opened := True\<rparr> = ?B"
        by (intro node.equality) simp_all
      ultimately show ?thesis by (simp only:)
    qed
  qed
  show "r_openList (relaxNeighbor fd endX endY u rs v) =
           (if n_opened (r_nodes rs v) then r_openList rs else r_openList rs @ [v])"
    using nc better by (simp add: relaxNeighbor_def Let_def t xy h')
  show "r_dirtyNodes (relaxNeighbor fd endX endY u rs v) =
           (if n_opened (r_nodes rs v) then r_dirtyNodes rs else r_dirtyNodes rs @ [snd v, fst v])"
    using nc better by (simp add: relaxNeighbor_def Let_def t xy h')
qed

section \<open>The invariant under the relaxation of one neighbour\<close>

lemma subGrid_sameShape:
  "subGrid pb gr \<Longrightarrow> sameShape gr gr' \<Longrightarrow> subGrid pb gr'"
  unfolding subGrid_def sameShape_def walkableCell_def isWalkableAt_def isInside_def
  by (metis (no_types, lifting))

lemma active_sameShape: "sameShape gr gr' \<Longrightarrow> active pb gr c = active pb gr' c"
  by (simp add: active_def walkableCell_sameShape)

lemma flat_snoc: "flat (cs @ [v]) = flat cs @ [snd v, fst v]"
  by (induction cs) simp_all

lemma coreD:
  assumes "core pb gr ol dirty"
  shows "subGrid pb gr"
    and "openedAt gr (pb_start pb)" and "closedAt gr (pb_start pb)"
    and "n_g (nodes gr (pb_start pb)) = Num 0" and "n_parent (nodes gr (pb_start pb)) = None"
    and "distinct ol"
    and "set ol = {c. active pb gr c \<and> openedAt gr c \<and> \<not> closedAt gr c}"
  using assms unfolding core_def by simp_all

lemma core_reached:
  assumes "core pb gr ol dirty" "active pb gr c" "c \<noteq> pb_start pb" "openedAt gr c"
  shows "reached pb gr c"
proof -
  have "\<forall>c. active pb gr c \<and> c \<noteq> pb_start pb \<and> openedAt gr c \<longrightarrow> reached pb gr c"
    using assms(1) unfolding core_def by (elim conjE)
  with assms(2-4) show ?thesis by blast
qed

lemma core_unopened:
  assumes "core pb gr ol dirty" "active pb gr c" "c \<noteq> pb_start pb" "\<not> openedAt gr c"
  shows "\<not> closedAt gr c" and "\<not> truthy (n_h (nodes gr c))"
proof -
  have "\<forall>c. active pb gr c \<and> c \<noteq> pb_start pb \<and> \<not> openedAt gr c \<longrightarrow>
          \<not> closedAt gr c \<and> \<not> truthy (n_h (nodes gr c))"
    using assms(1) unfolding core_def by (elim conjE)
  with assms(2-4) show "\<not> closedAt gr c" and "\<not> truthy (n_h (nodes gr c))" by blast+
qed

lemma core_optimal:
  assumes "core pb gr ol dirty" "active pb gr c" "closedAt gr c"
    and "pathBetween gr (diagonalMovement (pb_finder pb)) (pb_start pb) c path"
  shows "gval (nodes gr) c \<le> pathCost path"
proof -
  have "\<forall>c path. active pb gr c \<and> closedAt gr c \<and>
          pathBetween gr (diagonalMovement (pb_finder pb)) (pb_start pb) c path \<longrightarrow>
          gval (nodes gr) c \<le> pathCost path"
    using assms(1) unfolding core_def by (elim conjE)
  with assms(2-4) show ?thesis by blast
qed

lemma core_dirty:
  assumes "core pb gr ol dirty"
  shows "\<exists>cs. dirty = snd (pb_start pb) # fst (pb_start pb) # flat cs \<and>
          (\<forall>c. active pb gr c \<and> c \<noteq> pb_start pb \<and> openedAt gr c \<longrightarrow> c \<in> set cs)"
  using assms unfolding core_def by (elim conjE)

lemma closed_opened:
  assumes "core pb gr ol dirty" "active pb gr c" "closedAt gr c"
  shows "openedAt gr c"
  using coreD(2) [OF assms(1)] core_unopened(1) [OF assms(1,2)] assms(3) by blast

text \<open>The trail of a closed node: the start alone, or the path recorded for the node.\<close>

lemma closed_trail:
  assumes c: "core pb gr ol dirty" and a: "active pb gr u" and cl: "closedAt gr u"
  shows "\<exists>path. n_g (nodes gr u) = Num (pathCost path) \<and> trail (nodes gr) u path \<and>
           pathBetween gr (diagonalMovement (pb_finder pb)) (pb_start pb) u path \<and>
           (\<forall>x\<in>set (butlast path). closedAt gr x \<and> active pb gr x)"
proof (cases "u = pb_start pb")
  case True
  have "n_g (nodes gr u) = Num 0" "n_parent (nodes gr u) = None"
    using coreD(4,5) [OF c] True by simp_all
  then have "n_g (nodes gr u) = Num (pathCost [u]) \<and> trail (nodes gr) u [u] \<and>
           pathBetween gr (diagonalMovement (pb_finder pb)) (pb_start pb) u [u] \<and>
           (\<forall>x\<in>set (butlast [u]). closedAt gr x \<and> active pb gr x)"
    using True by (simp add: trail_root pathBetween_def)
  then show ?thesis by blast
next
  case False
  have "openedAt gr u" using c a cl by (rule closed_opened)
  with c a False have "reached pb gr u" by (intro core_reached)
  then show ?thesis unfolding reached_def by blast
qed

lemma core_update:
  assumes wp: "wellPosed pb"
    and c: "core pb gr ol dirty"
    and fc: "fcond pb gr u (v # rest)"
    and u: "closedAt gr u" "active pb gr u"
    and e: "edge gr (diagonalMovement (pb_finder pb)) u v"
    and nc: "\<not> closedAt gr v"
    and gu: "n_g (nodes gr u) = Num gu"
    and better: "\<not> openedAt gr v \<or> gu + stepCost u v < gval (nodes gr) v"
    and nd: "n_walkable nd = n_walkable (nodes gr v)" "n_x nd = n_x (nodes gr v)"
      "n_y nd = n_y (nodes gr v)" "n_closed nd = n_closed (nodes gr v)" "n_opened nd"
      "n_g nd = Num (gu + stepCost u v)" "n_h nd = Num (hAt (pb_hf pb) (pb_end pb) v)"
      "n_f nd = Num (gu + stepCost u v + hAt (pb_hf pb) (pb_end pb) v)" "n_parent nd = Some u"
    and gr': "gr' = gr\<lparr>nodes := (nodes gr)(v := nd)\<rparr>"
    and ol': "ol' = (if openedAt gr v then ol else ol @ [v])"
    and dirty': "dirty' = (if openedAt gr v then dirty else dirty @ [snd v, fst v])"
  shows "core pb gr' ol' dirty'" and "fcond pb gr' u rest"
proof -
  let ?S = "pb_start pb" and ?dm = "diagonalMovement (pb_finder pb)"
  have ss: "sameShape gr gr'"
    by (simp add: sameShape_def gr' nd)
  have av: "active pb gr v"
    using edge_walkable [OF e] by (simp add: active_def)
  have vS: "v \<noteq> ?S"
    using coreD(3) [OF c] nc by blast
  have uv: "u \<noteq> v"
    using u(1) nc by blast
  have cl: "closedAt gr' x = closedAt gr x" for x
    by (simp add: closedAt_def gr' nd)
  have op: "openedAt gr' x = (x = v \<or> openedAt gr x)" for x
    by (simp add: openedAt_def gr' nd)
  have act: "active pb gr' x = active pb gr x" for x
    using active_sameShape [OF ss] by simp
  have same: "x \<noteq> v \<Longrightarrow> nodes gr' x = nodes gr x" for x
    by (simp add: gr')
  have ed: "edge gr' ?dm a b = edge gr ?dm a b" for a b
    using edge_sameShape [OF ss] by simp
  have pb: "pathBetween gr' ?dm a b p = pathBetween gr ?dm a b p" for a b p
    using pathBetween_sameShape [OF ss] by simp
  have gv: "x \<noteq> v \<Longrightarrow> gval (nodes gr') x = gval (nodes gr) x" for x
    by (simp add: gval_def same)
  have gvv: "gval (nodes gr') v = gu + stepCost u v"
    by (simp add: gval_def gr' nd)
  have guv: "gval (nodes gr) u = gu"
    by (simp add: gval_def gu)

  \<comment> \<open>trails avoid the relaxed node\<close>
  have frame: "trail (nodes gr') x p"
    if "trail (nodes gr) x p" "x \<noteq> v" "\<forall>y\<in>set (butlast p). closedAt gr y" for x p
  proof (rule trail_frame [OF that(1)])
    fix y assume y: "y \<in> set p"
    from trail_snoc [OF that(1)] obtain xs where xs: "p = xs @ [x]" by blast
    with y that(3) have "y = x \<or> closedAt gr y" by auto
    with that(2) nc have "y \<noteq> v" by blast
    then show "n_parent (nodes gr' y) = n_parent (nodes gr y)" by (simp add: same)
  qed

  \<comment> \<open>the relaxed node is reached along the trail of the expanded node\<close>
  from closed_trail [OF c u(2,1)] obtain pu where pu:
    "n_g (nodes gr u) = Num (pathCost pu)" "trail (nodes gr) u pu"
    "pathBetween gr ?dm ?S u pu" "\<forall>x\<in>set (butlast pu). closedAt gr x \<and> active pb gr x"
    by blast
  from trail_last [OF pu(2)] have pune: "pu \<noteq> []" and pul: "last pu = u" by simp_all
  have gupu: "gu = pathCost pu" using pu(1) gu by simp
  have allpu: "\<forall>x\<in>set pu. closedAt gr x \<and> active pb gr x"
  proof
    fix x assume "x \<in> set pu"
    moreover from trail_snoc [OF pu(2)] obtain xs where "pu = xs @ [u]" by blast
    ultimately have "x = u \<or> x \<in> set (butlast pu)" by auto
    with pu(4) u show "closedAt gr x \<and> active pb gr x" by blast
  qed
  have rv: "reached pb gr' v"
  proof -
    have "trail (nodes gr') u pu"
      using pu(2) uv pu(4) by (intro frame) auto
    moreover have "n_parent (nodes gr' v) = Some u"
      by (simp add: gr' nd)
    ultimately have "trail (nodes gr') v (pu @ [v])"
      by (intro trail_step)
    moreover have "pathBetween gr' ?dm ?S v (pu @ [v])"
      using pu(3) pune pul e
      by (simp add: pathBetween_def validPath_snoc ed validPath_sameShape [OF ss, symmetric])
    moreover have "pathCost (pu @ [v]) = gu + stepCost u v"
      using pune pul gupu by (simp add: pathCost_snoc)
    moreover have "\<forall>x\<in>set (butlast (pu @ [v])). closedAt gr' x \<and> active pb gr' x"
      using allpu by (simp add: cl act)
    ultimately show ?thesis
      unfolding reached_def by (intro exI [of _ "pu @ [v]"]) (simp add: gr' nd)
  qed
  have rother: "reached pb gr' x" if "reached pb gr x" "x \<noteq> v" for x
  proof -
    from that(1) obtain p where p: "n_g (nodes gr x) = Num (pathCost p)"
      "n_h (nodes gr x) = Num (hAt (pb_hf pb) (pb_end pb) x)"
      "n_f (nodes gr x) = Num (pathCost p + hAt (pb_hf pb) (pb_end pb) x)"
      "trail (nodes gr) x p" "pathBetween gr ?dm ?S x p"
      "\<forall>y\<in>set (butlast p). closedAt gr y \<and> active pb gr y"
      unfolding reached_def by blast
    have "trail (nodes gr') x p"
      using p(4) that(2) p(6) by (intro frame) auto
    then show ?thesis
      unfolding reached_def using p that(2)
      by (intro exI [of _ p]) (simp add: same pb cl act)
  qed

  show "core pb gr' ol' dirty'"
    unfolding core_def
  proof (intro conjI allI impI)
    show "subGrid pb gr'"
      using coreD(1) [OF c] ss by (rule subGrid_sameShape)
    show "openedAt gr' ?S" "closedAt gr' ?S"
      using coreD(2,3) [OF c] by (simp_all add: op cl)
    show "n_g (nodes gr' ?S) = Num 0" "n_parent (nodes gr' ?S) = None"
      using coreD(4,5) [OF c] vS by (simp_all add: same)
    have olset: "set ol = {x. active pb gr x \<and> openedAt gr x \<and> \<not> closedAt gr x}" and dol: "distinct ol"
      using coreD(6,7) [OF c] by simp_all
    show "distinct ol'"
      using dol olset by (auto simp: ol')
    show "set ol' = {x. active pb gr' x \<and> openedAt gr' x \<and> \<not> closedAt gr' x}"
      using olset av nc by (auto simp: ol' op cl act)
  next
    fix x assume x: "active pb gr' x \<and> x \<noteq> ?S \<and> openedAt gr' x"
    show "reached pb gr' x"
    proof (cases "x = v")
      case True
      then show ?thesis using rv by simp
    next
      case False
      with x have "active pb gr x \<and> x \<noteq> ?S \<and> openedAt gr x" by (simp add: op act)
      with c have "reached pb gr x" by (intro core_reached) simp_all
      then show ?thesis using False by (rule rother)
    qed
  next
    fix x assume x: "active pb gr' x \<and> x \<noteq> ?S \<and> \<not> openedAt gr' x"
    then have xv: "x \<noteq> v" and "active pb gr x" "x \<noteq> ?S" "\<not> openedAt gr x"
      by (auto simp: op act)
    with core_unopened [OF c, of x]
    have "\<not> closedAt gr x \<and> \<not> truthy (n_h (nodes gr x))" by blast
    then show "\<not> closedAt gr' x" "\<not> truthy (n_h (nodes gr' x))"
      using xv by (simp_all add: cl same)
  next
    fix x p assume x: "active pb gr' x \<and> closedAt gr' x \<and> pathBetween gr' ?dm ?S x p"
    then have "x \<noteq> v" using nc by (auto simp: cl)
    moreover from x have "gval (nodes gr) x \<le> pathCost p"
      by (intro core_optimal [OF c]) (simp_all add: act cl pb)
    ultimately show "gval (nodes gr') x \<le> pathCost p" by (simp add: gv)
  next
    from core_dirty [OF c] obtain cs where cs: "dirty = snd ?S # fst ?S # flat cs"
      "\<forall>x. active pb gr x \<and> x \<noteq> ?S \<and> openedAt gr x \<longrightarrow> x \<in> set cs"
      by blast
    show "\<exists>cs. dirty' = snd ?S # fst ?S # flat cs \<and>
            (\<forall>x. active pb gr' x \<and> x \<noteq> ?S \<and> openedAt gr' x \<longrightarrow> x \<in> set cs)"
    proof (cases "openedAt gr v")
      case True
      then have "v \<in> set cs" using cs(2) av vS by blast
      then show ?thesis
        using cs True by (intro exI [of _ cs]) (auto simp: dirty' op act)
    next
      case False
      then show ?thesis
        using cs by (intro exI [of _ "cs @ [v]"]) (auto simp: dirty' op act flat_snoc)
    qed
  qed

  show "fcond pb gr' u rest"
    unfolding fcond_def
  proof (intro allI impI)
    fix a w
    assume h: "active pb gr' a \<and> closedAt gr' a \<and> edge gr' ?dm a w \<and> \<not> closedAt gr' w \<and>
               (a = u \<longrightarrow> w \<notin> set rest)"
    then have a: "active pb gr a" "closedAt gr a" "edge gr ?dm a w" "\<not> closedAt gr w"
      by (simp_all add: act cl ed)
    have av': "a \<noteq> v" using a(2) nc by blast
    show "openedAt gr' w \<and> gval (nodes gr') w \<le> gval (nodes gr') a + stepCost a w"
    proof (cases "w = v")
      case True
      show ?thesis
      proof (cases "a = u")
        case True
        with \<open>w = v\<close> show ?thesis by (simp add: op gvv gv uv guv)
      next
        case False
        with fc a True have old: "openedAt gr v \<and> gval (nodes gr) v \<le> gval (nodes gr) a + stepCost a v"
          unfolding fcond_def by blast
        with better have "gu + stepCost u v < gval (nodes gr) v" by blast
        with old True av' show ?thesis by (simp add: op gvv gv)
      qed
    next
      case False
      with h have "a = u \<longrightarrow> w \<notin> set (v # rest)" by simp
      with fc a have "openedAt gr w \<and> gval (nodes gr) w \<le> gval (nodes gr) a + stepCost a w"
        unfolding fcond_def by blast
      with False av' show ?thesis by (simp add: op gv)
    qed
  qed
qed

lemma fcond_skip:
  assumes fc: "fcond pb gr u (v # rest)"
    and skip: "closedAt gr v \<or> (openedAt gr v \<and> gval (nodes gr) v \<le> gval (nodes gr) u + stepCost u v)"
  shows "fcond pb gr u rest"
  unfolding fcond_def
proof (intro allI impI)
  fix a w
  assume h: "active pb gr a \<and> closedAt gr a \<and> edge gr (diagonalMovement (pb_finder pb)) a w \<and>
             \<not> closedAt gr w \<and> (a = u \<longrightarrow> w \<notin> set rest)"
  show "openedAt gr w \<and> gval (nodes gr) w \<le> gval (nodes gr) a + stepCost a w"
  proof (cases "a = u \<and> w = v")
    case True
    with h skip show ?thesis by blast
  next
    case False
    with h have "a = u \<longrightarrow> w \<notin> set (v # rest)" by auto
    with fc h show ?thesis unfolding fcond_def by blast
  qed
qed

lemma wellPosedD:
  assumes "wellPosed pb"
  shows "\<not> ftruthy (avoidStaircase (pb_finder pb))" and "\<not> ftruthy (breakTies (pb_finder pb))"
    and "weight (pb_finder pb) = Num 1" and "heuristicIs (pb_finder pb) (pb_hf pb)"
    and "consistent (pb_grid pb) (diagonalMovement (pb_finder pb)) (pb_end pb) (pb_hf pb)"
    and "freshGrid (pb_grid pb)"
    and "isInside (pb_grid pb) (fst (pb_start pb)) (snd (pb_start pb))"
    and "isInside (pb_grid pb) (fst (pb_end pb)) (snd (pb_end pb))"
    and "pb_start pb \<noteq> pb_end pb"
  using assms unfolding wellPosed_def by simp_all

lemma subGrid_xy:
  assumes "subGrid pb gr"
  shows "n_x (nodes gr c) = fst c" and "n_y (nodes gr c) = snd c"
  using assms unfolding subGrid_def by blast+

lemma sameShape_refl: "sameShape gr gr"
  by (simp add: sameShape_def)

lemma sameShape_trans: "sameShape a b \<Longrightarrow> sameShape b c \<Longrightarrow> sameShape a c"
  by (simp add: sameShape_def)

text \<open>One pass of the loop over the neighbours keeps the invariant.\<close>

lemma relax_step:
  assumes wp: "wellPosed pb"
    and c: "core pb (gr\<lparr>nodes := r_nodes rs\<rparr>) (r_openList rs) (r_dirtyNodes rs)"
    and fc: "fcond pb (gr\<lparr>nodes := r_nodes rs\<rparr>) u (v # rest)"
    and u: "closedAt (gr\<lparr>nodes := r_nodes rs\<rparr>) u" "active pb (gr\<lparr>nodes := r_nodes rs\<rparr>) u"
    and e: "edge (gr\<lparr>nodes := r_nodes rs\<rparr>) (diagonalMovement (pb_finder pb)) u v"
    and rs': "rs' = relaxNeighbor (pb_finder pb) (fst (pb_end pb)) (snd (pb_end pb)) u rs v"
  shows "core pb (gr\<lparr>nodes := r_nodes rs'\<rparr>) (r_openList rs') (r_dirtyNodes rs') \<and>
         fcond pb (gr\<lparr>nodes := r_nodes rs'\<rparr>) u rest \<and>
         sameShape (gr\<lparr>nodes := r_nodes rs\<rparr>) (gr\<lparr>nodes := r_nodes rs'\<rparr>) \<and>
         (\<forall>x. closedAt (gr\<lparr>nodes := r_nodes rs'\<rparr>) x = closedAt (gr\<lparr>nodes := r_nodes rs\<rparr>) x)"
proof -
  let ?G = "gr\<lparr>nodes := r_nodes rs\<rparr>"
  let ?fd = "pb_finder pb" and ?S = "pb_start pb"
  let ?c = "stepCost u v"
  note sg = coreD(1) [OF c]
  have xy: "n_x (r_nodes rs u) = fst u" "n_y (r_nodes rs u) = snd u"
    "n_x (r_nodes rs v) = fst v" "n_y (r_nodes rs v) = snd v"
    using subGrid_xy [OF sg] by simp_all
  from closed_trail [OF c u(2,1)] obtain pu where "n_g (nodes ?G u) = Num (pathCost pu)"
    by blast
  then obtain gu where gu: "n_g (r_nodes rs u) = Num gu" by simp
  have guv: "gval (r_nodes rs) u = gu" by (simp add: gval_def gu)
  have av: "active pb ?G v"
    using edge_walkable [OF e] by (simp add: active_def)
  have vg: "n_g (r_nodes rs v) = Num (gval (nodes ?G) v)"
    and vh: "n_h (r_nodes rs v) = Num (hAt (pb_hf pb) (fst (pb_end pb), snd (pb_end pb)) v)"
    if "openedAt ?G v" "\<not> closedAt ?G v"
  proof -
    have "v \<noteq> ?S" using coreD(3) [OF c] that(2) by blast
    with c av that(1) have "reached pb ?G v" by (intro core_reached)
    then show "n_g (r_nodes rs v) = Num (gval (nodes ?G) v)"
      and "n_h (r_nodes rs v) = Num (hAt (pb_hf pb) (fst (pb_end pb), snd (pb_end pb)) v)"
      unfolding reached_def by (auto simp: gval_def)
  qed
  show ?thesis
  proof (cases "closedAt ?G v \<or> (openedAt ?G v \<and> gval (nodes ?G) v \<le> gu + ?c)")
    case skip: True
    then have "n_closed (r_nodes rs v) \<or>
         (n_opened (r_nodes rs v) \<and> \<not> nlt (Num (gu + ?c)) (n_g (r_nodes rs v)))"
      using vg by (auto simp: closedAt_def openedAt_def)
    from relax_skip [OF wellPosedD(1) [OF wp] xy gu this]
    have "r_nodes rs' = r_nodes rs" "r_openList rs' = r_openList rs" "r_dirtyNodes rs' = r_dirtyNodes rs"
      by (simp_all add: rs')
    moreover have "fcond pb ?G u rest"
      by (rule fcond_skip [OF fc]) (use skip in \<open>simp add: guv\<close>)
    ultimately show ?thesis using c by (simp add: sameShape_refl)
  next
    case False
    then have relax: "\<not> closedAt ?G v" "\<not> openedAt ?G v \<or> gu + ?c < gval (nodes ?G) v"
      using not_le by blast+
    let ?nd = "(r_nodes rs v)\<lparr>n_g := Num (gu + ?c),
              n_h := Num (hAt (pb_hf pb) (fst (pb_end pb), snd (pb_end pb)) v),
              n_f := Num (gu + ?c + hAt (pb_hf pb) (fst (pb_end pb), snd (pb_end pb)) v),
              n_opened := True, n_parent := Some u\<rparr>"
    have nc: "\<not> n_closed (r_nodes rs v)"
      using relax(1) by (simp add: closedAt_def)
    have hv1: "n_opened (r_nodes rs v) \<Longrightarrow>
               n_h (r_nodes rs v) = Num (hAt (pb_hf pb) (fst (pb_end pb), snd (pb_end pb)) v)"
      using vh relax(1) by (simp add: openedAt_def)
    have hv2: "\<not> n_opened (r_nodes rs v) \<Longrightarrow> \<not> truthy (n_h (r_nodes rs v))"
    proof -
      assume "\<not> n_opened (r_nodes rs v)"
      then have "\<not> openedAt ?G v" by (simp add: openedAt_def)
      moreover have "v \<noteq> ?S" using coreD(3) [OF c] relax(1) by blast
      ultimately show ?thesis using core_unopened(2) [OF c av] by simp
    qed
    have better: "\<not> n_opened (r_nodes rs v) \<or> nlt (Num (gu + ?c)) (n_g (r_nodes rs v))"
      using relax vg by (auto simp: openedAt_def)
    note res = relax_result [OF wellPosedD(1) [OF wp] wellPosedD(3) [OF wp] wellPosedD(4) [OF wp]
        xy gu hv1 hv2 nc better]
    have g: "n_g (nodes ?G u) = Num gu" by (simp add: gu)
    have nd: "n_walkable ?nd = n_walkable (nodes ?G v)" "n_x ?nd = n_x (nodes ?G v)"
      "n_y ?nd = n_y (nodes ?G v)" "n_closed ?nd = n_closed (nodes ?G v)" "n_opened ?nd"
      "n_g ?nd = Num (gu + ?c)" "n_h ?nd = Num (hAt (pb_hf pb) (pb_end pb) v)"
      "n_f ?nd = Num (gu + ?c + hAt (pb_hf pb) (pb_end pb) v)" "n_parent ?nd = Some u"
      by simp_all
    have upd: "core pb (?G\<lparr>nodes := (nodes ?G)(v := ?nd)\<rparr>)
                 (if openedAt ?G v then r_openList rs else r_openList rs @ [v])
                 (if openedAt ?G v then r_dirtyNodes rs else r_dirtyNodes rs @ [snd v, fst v])"
      by (rule core_update(1) [OF wp c fc u e relax(1) g relax(2) nd refl refl refl])
    have fupd: "fcond pb (?G\<lparr>nodes := (nodes ?G)(v := ?nd)\<rparr>) u rest"
      by (rule core_update(2) [OF wp c fc u e relax(1) g relax(2) nd refl refl refl])
    have G': "gr\<lparr>nodes := r_nodes rs'\<rparr> = ?G\<lparr>nodes := (nodes ?G)(v := ?nd)\<rparr>"
      by (simp add: rs' res(1))
    have "sameShape ?G (gr\<lparr>nodes := r_nodes rs'\<rparr>)"
      by (simp add: sameShape_def rs' res(1))
    moreover have "closedAt (gr\<lparr>nodes := r_nodes rs'\<rparr>) x = closedAt ?G x" for x
      by (simp add: closedAt_def rs' res(1))
    moreover have "r_openList rs' = (if openedAt ?G v then r_openList rs else r_openList rs @ [v])"
      "r_dirtyNodes rs' = (if openedAt ?G v then r_dirtyNodes rs else r_dirtyNodes rs @ [snd v, fst v])"
      by (simp_all add: rs' res(2,3) openedAt_def)
    ultimately show ?thesis
      using upd fupd unfolding G' by simp
  qed
qed

lemma fold_relax:
  assumes wp: "wellPosed pb"
    and c: "core pb (gr\<lparr>nodes := r_nodes rs\<rparr>) (r_openList rs) (r_dirtyNodes rs)"
    and fc: "fcond pb (gr\<lparr>nodes := r_nodes rs\<rparr>) u pending"
    and u: "closedAt (gr\<lparr>nodes := r_nodes rs\<rparr>) u" "active pb (gr\<lparr>nodes := r_nodes rs\<rparr>) u"
    and e: "\<forall>v\<in>set pending. edge (gr\<lparr>nodes := r_nodes rs\<rparr>) (diagonalMovement (pb_finder pb)) u v"
    and rs': "rs' = foldl (relaxNeighbor (pb_finder pb) (fst (pb_end pb)) (snd (pb_end pb)) u) rs pending"
  shows "core pb (gr\<lparr>nodes := r_nodes rs'\<rparr>) (r_openList rs') (r_dirtyNodes rs') \<and>
         fcond pb (gr\<lparr>nodes := r_nodes rs'\<rparr>) u [] \<and>
         sameShape (gr\<lparr>nodes := r_nodes rs\<rparr>) (gr\<lparr>nodes := r_nodes rs'\<rparr>) \<and>
         (\<forall>x. closedAt (gr\<lparr>nodes := r_nodes rs'\<rparr>) x = closedAt (gr\<lparr>nodes := r_nodes rs\<rparr>) x)"
  using c fc u e rs'
proof (induction pending arbitrary: rs)
  case Nil
  then show ?case by (simp add: sameShape_refl)
next
  case (Cons v rest)
  let ?r1 = "relaxNeighbor (pb_finder pb) (fst (pb_end pb)) (snd (pb_end pb)) u rs v"
  let ?G = "gr\<lparr>nodes := r_nodes rs\<rparr>" and ?G1 = "gr\<lparr>nodes := r_nodes ?r1\<rparr>"
  have ev: "edge ?G (diagonalMovement (pb_finder pb)) u v"
    using Cons.prems(5) by simp
  from relax_step [OF wp Cons.prems(1,2,3,4) ev refl]
  have s1: "core pb ?G1 (r_openList ?r1) (r_dirtyNodes ?r1)" "fcond pb ?G1 u rest"
    "sameShape ?G ?G1" "\<forall>x. closedAt ?G1 x = closedAt ?G x"
    by blast+
  have u1: "closedAt ?G1 u" "active pb ?G1 u"
    using Cons.prems(3) s1(4) apply blast
    using Cons.prems(4) active_sameShape [OF s1(3)] by blast
  have e1: "\<forall>w\<in>set rest. edge ?G1 (diagonalMovement (pb_finder pb)) u w"
    using Cons.prems(5) edge_sameShape [OF s1(3)] by simp
  have "rs' = foldl (relaxNeighbor (pb_finder pb) (fst (pb_end pb)) (snd (pb_end pb)) u) ?r1 rest"
    using Cons.prems(6) by simp
  from Cons.IH [OF s1(1,2) u1 e1 this]
  show ?case
    using s1(3,4) sameShape_trans [OF s1(3)] by simp
qed

section \<open>Closing the popped node\<close>

lemma coreI:
  assumes "subGrid pb gr"
    and "openedAt gr (pb_start pb)" and "closedAt gr (pb_start pb)"
    and "n_g (nodes gr (pb_start pb)) = Num 0" and "n_parent (nodes gr (pb_start pb)) = None"
    and "distinct ol"
    and "set ol = {c. active pb gr c \<and> openedAt gr c \<and> \<not> closedAt gr c}"
    and "\<forall>c. active pb gr c \<and> c \<noteq> pb_start pb \<and> openedAt gr c \<longrightarrow> reached pb gr c"
    and "\<forall>c. active pb gr c \<and> c \<noteq> pb_start pb \<and> \<not> openedAt gr c \<longrightarrow>
          \<not> closedAt gr c \<and> \<not> truthy (n_h (nodes gr c))"
    and "\<forall>c path. active pb gr c \<and> closedAt gr c \<and>
          pathBetween gr (diagonalMovement (pb_finder pb)) (pb_start pb) c path \<longrightarrow>
          gval (nodes gr) c \<le> pathCost path"
    and "\<exists>cs. dirty = snd (pb_start pb) # fst (pb_start pb) # flat cs \<and>
          (\<forall>c. active pb gr c \<and> c \<noteq> pb_start pb \<and> openedAt gr c \<longrightarrow> c \<in> set cs)"
  shows "core pb gr ol dirty"
  unfolding core_def by (intro conjI assms)

lemma closeNode_simps:
  "sameShape gr (closeNode gr n)"
  "openedAt (closeNode gr n) c = openedAt gr c"
  "closedAt (closeNode gr n) c = (c = n \<or> closedAt gr c)"
  "gval (nodes (closeNode gr n)) c = gval (nodes gr) c"
  "n_g (nodes (closeNode gr n) c) = n_g (nodes gr c)"
  "n_h (nodes (closeNode gr n) c) = n_h (nodes gr c)"
  "n_f (nodes (closeNode gr n) c) = n_f (nodes gr c)"
  "n_parent (nodes (closeNode gr n) c) = n_parent (nodes gr c)"
  by (simp_all add: closeNode_def sameShape_def openedAt_def closedAt_def gval_def)

lemma closeNode_active: "active pb (closeNode gr n) c = active pb gr c"
  using active_sameShape [OF closeNode_simps(1)] by simp

lemma closeNode_edge: "edge (closeNode gr n) dm u v = edge gr dm u v"
  using edge_sameShape [OF closeNode_simps(1)] by simp

lemma closeNode_pathBetween: "pathBetween (closeNode gr n) dm a b p = pathBetween gr dm a b p"
  using pathBetween_sameShape [OF closeNode_simps(1)] by simp

lemma reached_close:
  assumes "reached pb gr c"
  shows "reached pb (closeNode gr n) c"
proof -
  from assms obtain path where p: "n_g (nodes gr c) = Num (pathCost path)"
    "n_h (nodes gr c) = Num (hAt (pb_hf pb) (pb_end pb) c)"
    "n_f (nodes gr c) = Num (pathCost path + hAt (pb_hf pb) (pb_end pb) c)"
    "trail (nodes gr) c path"
    "pathBetween gr (diagonalMovement (pb_finder pb)) (pb_start pb) c path"
    "\<forall>x\<in>set (butlast path). closedAt gr x \<and> active pb gr x"
    unfolding reached_def by blast
  have "trail (nodes (closeNode gr n)) c path"
    using p(4) by (rule trail_frame) (simp add: closeNode_simps)
  moreover have "\<forall>x\<in>set (butlast path). closedAt (closeNode gr n) x \<and> active pb (closeNode gr n) x"
    using p(6) by (simp add: closeNode_simps closeNode_active)
  ultimately show ?thesis
    unfolding reached_def using p(1,2,3,5)
    by (auto simp: closeNode_simps closeNode_pathBetween)
qed

lemma core_close:
  assumes c: "core pb gr ol dirty" and n: "n \<in> set ol"
    and opt: "\<And>path. pathBetween gr (diagonalMovement (pb_finder pb)) (pb_start pb) n path \<Longrightarrow>
                gval (nodes gr) n \<le> pathCost path"
  shows "core pb (closeNode gr n) (remove1 n ol) dirty"
proof (rule coreI)
  have n': "active pb gr n" "openedAt gr n" "\<not> closedAt gr n"
    using n coreD(7) [OF c] by auto
  show "subGrid pb (closeNode gr n)"
    using coreD(1) [OF c] closeNode_simps(1) by (rule subGrid_sameShape)
  show "openedAt (closeNode gr n) (pb_start pb)" "closedAt (closeNode gr n) (pb_start pb)"
    "n_g (nodes (closeNode gr n) (pb_start pb)) = Num 0"
    "n_parent (nodes (closeNode gr n) (pb_start pb)) = None"
    using coreD(2-5) [OF c] by (simp_all add: closeNode_simps)
  show "distinct (remove1 n ol)"
    using coreD(6) [OF c] by simp
  show "set (remove1 n ol) =
        {c. active pb (closeNode gr n) c \<and> openedAt (closeNode gr n) c \<and> \<not> closedAt (closeNode gr n) c}"
    using coreD(6,7) [OF c] by (auto simp: closeNode_simps closeNode_active)
  show "\<forall>c. active pb (closeNode gr n) c \<and> c \<noteq> pb_start pb \<and> openedAt (closeNode gr n) c \<longrightarrow>
          reached pb (closeNode gr n) c"
    using core_reached [OF c] reached_close by (simp add: closeNode_simps closeNode_active)
  show "\<forall>c. active pb (closeNode gr n) c \<and> c \<noteq> pb_start pb \<and> \<not> openedAt (closeNode gr n) c \<longrightarrow>
          \<not> closedAt (closeNode gr n) c \<and> \<not> truthy (n_h (nodes (closeNode gr n) c))"
    using core_unopened [OF c] n'(2) by (auto simp: closeNode_simps closeNode_active)
  show "\<forall>c path. active pb (closeNode gr n) c \<and> closedAt (closeNode gr n) c \<and>
          pathBetween (closeNode gr n) (diagonalMovement (pb_finder pb)) (pb_start pb) c path \<longrightarrow>
          gval (nodes (closeNode gr n)) c \<le> pathCost path"
    using core_optimal [OF c] opt
    by (auto simp: closeNode_simps closeNode_active closeNode_pathBetween)
  show "\<exists>cs. dirty = snd (pb_start pb) # fst (pb_start pb) # flat cs \<and>
          (\<forall>c. active pb (closeNode gr n) c \<and> c \<noteq> pb_start pb \<and> openedAt (closeNode gr n) c \<longrightarrow>
               c \<in> set cs)"
    using core_dirty [OF c] by (simp add: closeNode_simps closeNode_active)
qed

lemma fcond_close:
  assumes "fcond pb gr u0 []"
  shows "fcond pb (closeNode gr n) n
           (getNeighbors (closeNode gr n) (nodes (closeNode gr n) n) (diagonalMovement (pb_finder pb)))"
  unfolding fcond_def
proof (intro allI impI)
  fix a v
  let ?G = "closeNode gr n" and ?dm = "diagonalMovement (pb_finder pb)"
  assume h: "active pb ?G a \<and> closedAt ?G a \<and> edge ?G ?dm a v \<and> \<not> closedAt ?G v \<and>
             (a = n \<longrightarrow> v \<notin> set (getNeighbors ?G (nodes ?G n) ?dm))"
  then have "a \<noteq> n" unfolding edge_def by blast
  with h have "active pb gr a \<and> closedAt gr a \<and> edge gr ?dm a v \<and> \<not> closedAt gr v \<and>
               (a = u0 \<longrightarrow> v \<notin> set [])"
    by (simp add: closeNode_simps closeNode_active closeNode_edge)
  with assms have "openedAt gr v \<and> gval (nodes gr) v \<le> gval (nodes gr) a + stepCost a v"
    unfolding fcond_def by blast
  then show "openedAt ?G v \<and> gval (nodes ?G) v \<le> gval (nodes ?G) a + stepCost a v"
    by (simp add: closeNode_simps)
qed

section \<open>The popped node has its final cost\<close>

lemma active_inside:
  assumes wp: "wellPosed pb" and sg: "subGrid pb gr" and a: "active pb gr c"
  shows "isInside (pb_grid pb) (fst c) (snd c)"
proof (cases "c = pb_start pb")
  case True
  then show ?thesis using wellPosedD(7) [OF wp] by simp
next
  case False
  with a have "walkableCell gr c" by (simp add: active_def)
  then have "walkableCell (pb_grid pb) c" using sg unfolding subGrid_def by blast
  then show ?thesis by (simp add: walkableCell_def isWalkableAt_def)
qed

lemma frontier:
  assumes wp: "wellPosed pb" and c: "core pb gr ol dirty" and fc: "fcond pb gr u0 []"
  shows "validPath gr (diagonalMovement (pb_finder pb)) path \<Longrightarrow> hd path = pb_start pb \<Longrightarrow>
         active pb gr (last path) \<and>
         (closedAt gr (last path) \<or>
          (\<exists>x\<in>set ol. gval (nodes gr) x + hAt (pb_hf pb) (pb_end pb) x
                        \<le> pathCost path + hAt (pb_hf pb) (pb_end pb) (last path)))"
proof (induction path rule: rev_induct)
  case Nil
  then show ?case by simp
next
  case (snoc t p)
  let ?dm = "diagonalMovement (pb_finder pb)" and ?h = "hAt (pb_hf pb) (pb_end pb)"
  show ?case
  proof (cases "p = []")
    case True
    with snoc.prems(2) have "t = pb_start pb" by simp
    then show ?thesis using coreD(3) [OF c] by (simp add: active_def)
  next
    case False
    let ?u = "last p"
    have vp: "validPath gr ?dm p" and e: "edge gr ?dm ?u t"
      using snoc.prems(1) validPath_snoc [OF False] by blast+
    have hd: "hd p = pb_start pb" using snoc.prems(2) False by simp
    from snoc.IH [OF vp hd] have au: "active pb gr ?u"
      and alt: "closedAt gr ?u \<or> (\<exists>x\<in>set ol. gval (nodes gr) x + ?h x \<le> pathCost p + ?h ?u)"
      by blast+
    have cost: "pathCost (p @ [t]) = pathCost p + stepCost ?u t"
      using False by (rule pathCost_snoc)
    have at: "active pb gr t"
      using edge_walkable [OF e] by (simp add: active_def)
    have "edge (pb_grid pb) ?dm ?u t"
      using coreD(1) [OF c] wellPosedD(6) [OF wp] e by (rule subGrid_edge)
    moreover have "isInside (pb_grid pb) (fst ?u) (snd ?u)"
      using wp coreD(1) [OF c] au by (rule active_inside)
    ultimately have cons: "?h ?u \<le> stepCost ?u t + ?h t"
      using wellPosedD(5) [OF wp] unfolding consistent_def by blast
    have "closedAt gr t \<or> (\<exists>x\<in>set ol. gval (nodes gr) x + ?h x \<le> pathCost (p @ [t]) + ?h t)"
    proof (cases "closedAt gr t")
      case True
      then show ?thesis by simp
    next
      case nt: False
      from alt show ?thesis
      proof
        assume cu: "closedAt gr ?u"
        have "pathBetween gr ?dm (pb_start pb) ?u p"
          using vp hd by (simp add: pathBetween_def)
        with c au cu have gu: "gval (nodes gr) ?u \<le> pathCost p" by (rule core_optimal)
        have "active pb gr ?u \<and> closedAt gr ?u \<and> edge gr ?dm ?u t \<and> \<not> closedAt gr t \<and>
              (?u = u0 \<longrightarrow> t \<notin> set [])"
          using au cu e nt by simp
        with fc have ot: "openedAt gr t" and gt: "gval (nodes gr) t \<le> gval (nodes gr) ?u + stepCost ?u t"
          unfolding fcond_def by blast+
        have "t \<in> set ol" using coreD(7) [OF c] at ot nt by simp
        moreover have "gval (nodes gr) t + ?h t \<le> pathCost (p @ [t]) + ?h t"
          using gt gu cost by simp
        ultimately show ?thesis by blast
      next
        assume "\<exists>x\<in>set ol. gval (nodes gr) x + ?h x \<le> pathCost p + ?h ?u"
        then obtain x where "x \<in> set ol" "gval (nodes gr) x + ?h x \<le> pathCost p + ?h ?u"
          by blast
        with cons cost have "x \<in> set ol \<and> gval (nodes gr) x + ?h x \<le> pathCost (p @ [t]) + ?h t"
          by simp
        then show ?thesis by blast
      qed
    qed
    with at show ?thesis by simp
  qed
qed

lemma open_f:
  assumes c: "core pb gr ol dirty" and x: "x \<in> set ol"
  shows "n_f (nodes gr x) = Num (gval (nodes gr) x + hAt (pb_hf pb) (pb_end pb) x)"
proof -
  have x': "active pb gr x" "openedAt gr x" "\<not> closedAt gr x"
    using x coreD(7) [OF c] by auto
  then have "x \<noteq> pb_start pb" using coreD(3) [OF c] by blast
  with c x' have "reached pb gr x" by (intro core_reached)
  then show ?thesis unfolding reached_def by (auto simp: gval_def)
qed

lemma pop_optimal:
  assumes wp: "wellPosed pb" and c: "core pb gr ol dirty" and fc: "fcond pb gr u0 []"
    and ne: "ol \<noteq> []"
  shows "fst (pop (nodes gr) ol) \<in> set ol"
    and "snd (pop (nodes gr) ol) = remove1 (fst (pop (nodes gr) ol)) ol"
    and "pathBetween gr (diagonalMovement (pb_finder pb)) (pb_start pb) (fst (pop (nodes gr) ol)) path \<Longrightarrow>
         gval (nodes gr) (fst (pop (nodes gr) ol)) \<le> pathCost path"
proof -
  let ?n = "fst (pop (nodes gr) ol)" and ?h = "hAt (pb_hf pb) (pb_end pb)"
  have n: "?n = popMin (nodes gr) (hd ol) (tl ol)"
    by (simp add: pop_def Let_def)
  have ol: "hd ol # tl ol = ol" using ne by simp
  have "\<And>x. x \<in> set (hd ol # tl ol) \<Longrightarrow> n_f (nodes gr x) = Num (gval (nodes gr) x + ?h x)"
    unfolding ol using c by (rule open_f)
  from popMin_min [of "hd ol" "tl ol" "nodes gr" "\<lambda>x. gval (nodes gr) x + ?h x", OF this]
  have mem: "?n \<in> set ol"
    and least: "\<forall>x\<in>set ol. gval (nodes gr) ?n + ?h ?n \<le> gval (nodes gr) x + ?h x"
    unfolding ol n by blast+
  show "?n \<in> set ol" by (rule mem)
  show "snd (pop (nodes gr) ol) = remove1 ?n ol"
    by (simp add: pop_def Let_def)
  assume p: "pathBetween gr (diagonalMovement (pb_finder pb)) (pb_start pb) ?n path"
  have nc: "\<not> closedAt gr ?n" using mem coreD(7) [OF c] by auto
  from p have "validPath gr (diagonalMovement (pb_finder pb)) path" "hd path = pb_start pb"
    "last path = ?n"
    by (simp_all add: pathBetween_def)
  from frontier [OF wp c fc this(1,2)] nc this(3)
  obtain x where "x \<in> set ol" "gval (nodes gr) x + ?h x \<le> pathCost path + ?h ?n"
    by auto
  with least show "gval (nodes gr) ?n \<le> pathCost path"
    by fastforce
qed

section \<open>One pass of the loop\<close>

lemma fcond_nil: "fcond pb gr u [] \<Longrightarrow> fcond pb gr u' []"
  unfolding fcond_def list.set(1) by blast

lemma walkableCount_sameShape:
  assumes "sameShape gr gr'"
  shows "walkableCount gr = walkableCount gr'"
proof -
  have "n_walkable (nodes gr c) = n_walkable (nodes gr' c)" for c
    using assms unfolding sameShape_def by blast
  moreover have "cellsOf gr = cellsOf gr'"
    using assms by (simp add: cellsOf_def sameShape_def)
  ultimately show ?thesis by (simp add: walkableCount_def)
qed

lemma finite_cellsOf: "finite (cellsOf gr)"
  by (simp add: cellsOf_def)

lemma walkable_cellsOf: "walkableCell gr c \<Longrightarrow> c \<in> cellsOf gr"
  by (cases c) (simp add: walkableCell_def isWalkableAt_def isInside_def cellsOf_def)

lemma unclosedCount_less:
  assumes ss: "sameShape gr gr'" and cl: "\<And>x. closedAt gr' x = (x = n \<or> closedAt gr x)"
    and n: "\<not> closedAt gr n" "n \<in> cellsOf gr"
  shows "unclosedCount gr' < unclosedCount gr"
proof -
  have cells: "cellsOf gr' = cellsOf gr"
    using ss by (simp add: cellsOf_def sameShape_def)
  have "{c \<in> cellsOf gr'. \<not> n_closed (nodes gr' c)} \<subset> {c \<in> cellsOf gr. \<not> n_closed (nodes gr c)}"
    using cl n unfolding cells closedAt_def by blast
  moreover have "finite {c \<in> cellsOf gr. \<not> n_closed (nodes gr c)}"
    using finite_cellsOf by simp
  ultimately show ?thesis
    unfolding unclosedCount_def by (intro psubset_card_mono)
qed

lemma expand_continue:
  assumes wp: "wellPosed pb"
    and c: "core pb ((s_grid s)\<lparr>nodes := st\<rparr>) ol (s_dirtyNodes s)"
    and fc: "fcond pb ((s_grid s)\<lparr>nodes := st\<rparr>) n
               (getNeighbors ((s_grid s)\<lparr>nodes := st\<rparr>) (st n) (diagonalMovement (pb_finder pb)))"
    and n: "closedAt ((s_grid s)\<lparr>nodes := st\<rparr>) n" "active pb ((s_grid s)\<lparr>nodes := st\<rparr>) n"
  shows "\<exists>s'. expand (pb_finder pb) (fst (pb_end pb)) (snd (pb_end pb)) s st ol n = Continue s' \<and>
           mainPhase pb s' \<and> sameShape ((s_grid s)\<lparr>nodes := st\<rparr>) (s_grid s') \<and>
           (\<forall>x. closedAt (s_grid s') x = closedAt ((s_grid s)\<lparr>nodes := st\<rparr>) x) \<and>
           s_paths s' = s_paths s \<and> s_iterations s' = s_iterations s"
proof -
  let ?fd = "pb_finder pb"
  let ?G = "(s_grid s)\<lparr>nodes := st\<rparr>"
  let ?nb = "getNeighbors ?G (st n) (diagonalMovement ?fd)"
  let ?r0 = "\<lparr>r_nodes = st, r_openList = ol, r_neighborsAddedToList = [],
              r_prevFVal = None, r_minFVal = s_minFVal s, r_dirtyNodes = s_dirtyNodes s\<rparr>"
  let ?rs = "foldl (relaxNeighbor ?fd (fst (pb_end pb)) (snd (pb_end pb)) n) ?r0 ?nb"
  let ?s' = "s\<lparr>s_grid := (s_grid s)\<lparr>nodes := r_nodes ?rs\<rparr>, s_openList := r_openList ?rs,
               s_minFVal := r_minFVal ?rs, s_atStartNode := False, s_dirtyNodes := r_dirtyNodes ?rs\<rparr>"
  have c0: "core pb ((s_grid s)\<lparr>nodes := r_nodes ?r0\<rparr>) (r_openList ?r0) (r_dirtyNodes ?r0)"
    using c by simp
  have fc0: "fcond pb ((s_grid s)\<lparr>nodes := r_nodes ?r0\<rparr>) n ?nb"
    using fc by simp
  have n0: "closedAt ((s_grid s)\<lparr>nodes := r_nodes ?r0\<rparr>) n" "active pb ((s_grid s)\<lparr>nodes := r_nodes ?r0\<rparr>) n"
    using n by simp_all
  have e0: "\<forall>v\<in>set ?nb. edge ((s_grid s)\<lparr>nodes := r_nodes ?r0\<rparr>) (diagonalMovement ?fd) n v"
    by (simp add: edge_def)
  from fold_relax [OF wp c0 fc0 n0 e0 refl]
  have r: "core pb ((s_grid s)\<lparr>nodes := r_nodes ?rs\<rparr>) (r_openList ?rs) (r_dirtyNodes ?rs)"
    "fcond pb ((s_grid s)\<lparr>nodes := r_nodes ?rs\<rparr>) n []"
    "sameShape ?G ((s_grid s)\<lparr>nodes := r_nodes ?rs\<rparr>)"
    "\<forall>x. closedAt ((s_grid s)\<lparr>nodes := r_nodes ?rs\<rparr>) x = closedAt ?G x"
    by simp_all
  have "tieCall ?fd (s_atStartNode s) = None"
    using wellPosedD(2) [OF wp] by (simp add: tieCall_def)
  then have "expand ?fd (fst (pb_end pb)) (snd (pb_end pb)) s st ol n = Continue ?s'"
    by (simp add: expand_def relaxNeighbors_def Let_def breakTiesAfter_def)
  moreover have "mainPhase pb ?s'"
    using r(1) fcond_nil [OF r(2)] by (simp add: mainPhase_def)
  ultimately show ?thesis
    using r(3,4) by simp
qed

lemma pass_nonempty:
  assumes "s_openList s \<noteq> []"
  shows "findPath_pass fd sx sy ex ey s =
          (let na = fst (pop (nodes (s_grid s)) (s_openList s))
           in if na = (ex, ey)
              then reachedEnd fd sx sy ex ey s (nodes (closeNode (s_grid s) na)) na
              else expand fd ex ey s (nodes (closeNode (s_grid s) na))
                     (snd (pop (nodes (s_grid s)) (s_openList s))) na)"
  using assms by (simp add: findPath_pass_def Let_def closeNode_def)

lemma closeNode_grid: "(s_grid s)\<lparr>nodes := nodes (closeNode (s_grid s) n)\<rparr> = closeNode (s_grid s) n"
  by (simp add: closeNode_def)

text \<open>A pass that pops a node other than the end node closes it and goes on.\<close>

lemma main_expand:
  assumes wp: "wellPosed pb" and m: "mainPhase pb s"
    and ne: "s_openList s \<noteq> []"
    and nE: "fst (pop (nodes (s_grid s)) (s_openList s)) \<noteq> pb_end pb"
  shows "\<exists>s'. findPath_pass (pb_finder pb) sx sy (fst (pb_end pb)) (snd (pb_end pb)) s = Continue s' \<and>
           mainPhase pb s' \<and> sameShape (s_grid s) (s_grid s') \<and>
           (\<forall>x. closedAt (s_grid s') x =
                  (x = fst (pop (nodes (s_grid s)) (s_openList s)) \<or> closedAt (s_grid s) x)) \<and>
           s_paths s' = s_paths s \<and> s_iterations s' = s_iterations s \<and>
           unclosedCount (s_grid s') < unclosedCount (s_grid s)"
proof -
  let ?gr = "s_grid s" and ?ol = "s_openList s"
  let ?n = "fst (pop (nodes ?gr) ?ol)"
  let ?G = "closeNode ?gr ?n"
  have c: "core pb ?gr ?ol (s_dirtyNodes s)" and fc: "fcond pb ?gr (pb_start pb) []"
    using m by (simp_all add: mainPhase_def)
  note po = pop_optimal [OF wp c fc ne]
  have n': "active pb ?gr ?n" "openedAt ?gr ?n" "\<not> closedAt ?gr ?n"
    using po(1) coreD(7) [OF c] by auto
  have nS: "?n \<noteq> pb_start pb" using n'(3) coreD(3) [OF c] by auto
  have c1: "core pb ?G (snd (pop (nodes ?gr) ?ol)) (s_dirtyNodes s)"
    unfolding po(2) using c po(1) po(3) by (rule core_close)
  have fc1: "fcond pb ?G ?n (getNeighbors ?G (nodes ?G ?n) (diagonalMovement (pb_finder pb)))"
    using fc by (rule fcond_close)
  have n1: "closedAt ?G ?n" "active pb ?G ?n"
    using n'(1) by (simp_all add: closeNode_simps closeNode_active)
  from expand_continue [where pb = pb and s = s and st = "nodes ?G" and n = ?n
      and ol = "snd (pop (nodes ?gr) ?ol)", unfolded closeNode_grid,
      OF wp c1 fc1 n1]
  obtain s' where s': "expand (pb_finder pb) (fst (pb_end pb)) (snd (pb_end pb)) s (nodes ?G)
        (snd (pop (nodes ?gr) ?ol)) ?n = Continue s'"
    "mainPhase pb s'" "sameShape ?G (s_grid s')" "\<forall>x. closedAt (s_grid s') x = closedAt ?G x"
    "s_paths s' = s_paths s" "s_iterations s' = s_iterations s"
    by blast
  have ss: "sameShape ?gr (s_grid s')"
    using closeNode_simps(1) s'(3) by (rule sameShape_trans)
  have pass: "findPath_pass (pb_finder pb) sx sy (fst (pb_end pb)) (snd (pb_end pb)) s = Continue s'"
    using nE s'(1) by (simp add: pass_nonempty [OF ne] Let_def)
  have cl: "closedAt (s_grid s') x = (x = ?n \<or> closedAt ?gr x)" for x
    using spec [OF s'(4), of x] by (simp add: closeNode_simps)
  have "walkableCell ?gr ?n" using n'(1) nS by (simp add: active_def)
  then have "?n \<in> cellsOf ?gr" by (rule walkable_cellsOf)
  with ss cl n'(3) have less: "unclosedCount (s_grid s') < unclosedCount ?gr"
    by (intro unclosedCount_less)
  from cl have "\<forall>x. closedAt (s_grid s') x = (x = ?n \<or> closedAt ?gr x)" by blast
  with pass s'(2,5,6) ss less show ?thesis by blast
qed

section \<open>The first pass of a search\<close>

lemma initPhaseD:
  assumes "initPhase pb s"
  shows "subGrid pb (s_grid s)" and "openedAt (s_grid s) (pb_start pb)"
    and "n_g (nodes (s_grid s) (pb_start pb)) = Num 0"
    and "n_f (nodes (s_grid s) (pb_start pb)) = Num 0"
    and "n_parent (nodes (s_grid s) (pb_start pb)) = None"
    and "s_openList s = [pb_start pb]"
    and "s_dirtyNodes s = [snd (pb_start pb), fst (pb_start pb)]"
  using assms unfolding initPhase_def by simp_all

lemma initPhase_rest:
  assumes "initPhase pb s" "active pb (s_grid s) c" "c \<noteq> pb_start pb"
  shows "\<not> openedAt (s_grid s) c" and "\<not> closedAt (s_grid s) c"
    and "\<not> truthy (n_h (nodes (s_grid s) c))"
proof -
  have "\<forall>c. active pb (s_grid s) c \<and> c \<noteq> pb_start pb \<longrightarrow>
          \<not> openedAt (s_grid s) c \<and> \<not> closedAt (s_grid s) c \<and> \<not> truthy (n_h (nodes (s_grid s) c))"
    using assms(1) unfolding initPhase_def by (elim conjE)
  with assms(2,3) show "\<not> openedAt (s_grid s) c" and "\<not> closedAt (s_grid s) c"
    and "\<not> truthy (n_h (nodes (s_grid s) c))"
    by blast+
qed

lemma core_init:
  assumes i: "initPhase pb s"
  shows "core pb (closeNode (s_grid s) (pb_start pb)) [] (s_dirtyNodes s)"
proof (rule coreI)
  let ?S = "pb_start pb" and ?G = "closeNode (s_grid s) (pb_start pb)"
  note r = initPhase_rest [OF i]
  show "subGrid pb ?G"
    using initPhaseD(1) [OF i] closeNode_simps(1) by (rule subGrid_sameShape)
  show "openedAt ?G ?S" "closedAt ?G ?S" "n_g (nodes ?G ?S) = Num 0" "n_parent (nodes ?G ?S) = None"
    using initPhaseD(2,3,5) [OF i] by (simp_all add: closeNode_simps)
  show "distinct []" by simp
  show "set [] = {c. active pb ?G c \<and> openedAt ?G c \<and> \<not> closedAt ?G c}"
    using r(1) by (auto simp: closeNode_simps closeNode_active)
  show "\<forall>c. active pb ?G c \<and> c \<noteq> ?S \<and> openedAt ?G c \<longrightarrow> reached pb ?G c"
    using r(1) by (auto simp: closeNode_simps closeNode_active)
  show "\<forall>c. active pb ?G c \<and> c \<noteq> ?S \<and> \<not> openedAt ?G c \<longrightarrow>
          \<not> closedAt ?G c \<and> \<not> truthy (n_h (nodes ?G c))"
    using r(2,3) by (auto simp: closeNode_simps closeNode_active)
  show "\<forall>c path. active pb ?G c \<and> closedAt ?G c \<and>
          pathBetween ?G (diagonalMovement (pb_finder pb)) ?S c path \<longrightarrow>
          gval (nodes ?G) c \<le> pathCost path"
  proof (intro allI impI)
    fix c path
    assume h: "active pb ?G c \<and> closedAt ?G c \<and>
          pathBetween ?G (diagonalMovement (pb_finder pb)) ?S c path"
    then have "c = ?S" using r(2) [of c] by (auto simp: closeNode_simps closeNode_active)
    then have "gval (nodes ?G) c = 0"
      using initPhaseD(3) [OF i] by (simp add: closeNode_simps gval_def)
    then show "gval (nodes ?G) c \<le> pathCost path"
      using pathCost_nonneg [of path] by simp
  qed
  have "s_dirtyNodes s = snd ?S # fst ?S # flat []"
    using initPhaseD(7) [OF i] by simp
  moreover have "\<forall>c. active pb ?G c \<and> c \<noteq> ?S \<and> openedAt ?G c \<longrightarrow> c \<in> set []"
    using r(1) by (auto simp: closeNode_simps closeNode_active)
  ultimately show "\<exists>cs. s_dirtyNodes s = snd ?S # fst ?S # flat cs \<and>
          (\<forall>c. active pb ?G c \<and> c \<noteq> ?S \<and> openedAt ?G c \<longrightarrow> c \<in> set cs)"
    by blast
qed

lemma fcond_init:
  assumes i: "initPhase pb s"
  shows "fcond pb (closeNode (s_grid s) (pb_start pb)) (pb_start pb)
           (getNeighbors (closeNode (s_grid s) (pb_start pb))
              (nodes (closeNode (s_grid s) (pb_start pb)) (pb_start pb))
              (diagonalMovement (pb_finder pb)))"
  unfolding fcond_def
proof (intro allI impI)
  fix a v
  let ?S = "pb_start pb" and ?G = "closeNode (s_grid s) (pb_start pb)"
  let ?dm = "diagonalMovement (pb_finder pb)"
  assume h: "active pb ?G a \<and> closedAt ?G a \<and> edge ?G ?dm a v \<and> \<not> closedAt ?G v \<and>
             (a = ?S \<longrightarrow> v \<notin> set (getNeighbors ?G (nodes ?G ?S) ?dm))"
  then have "a \<noteq> ?S" unfolding edge_def by blast
  with h initPhase_rest(2) [OF i, of a] have False
    by (simp add: closeNode_simps closeNode_active)
  then show "openedAt ?G v \<and> gval (nodes ?G) v \<le> gval (nodes ?G) a + stepCost a v" ..
qed

lemma init_expand:
  assumes wp: "wellPosed pb" and i: "initPhase pb s"
  shows "\<exists>s'. findPath_pass (pb_finder pb) sx sy (fst (pb_end pb)) (snd (pb_end pb)) s = Continue s' \<and>
           mainPhase pb s' \<and> sameShape (s_grid s) (s_grid s') \<and>
           (\<forall>x. closedAt (s_grid s') x = (x = pb_start pb \<or> closedAt (s_grid s) x)) \<and>
           s_paths s' = s_paths s \<and> s_iterations s' = s_iterations s"
proof -
  let ?gr = "s_grid s" and ?S = "pb_start pb"
  let ?G = "closeNode ?gr ?S"
  have ol: "s_openList s = [?S]" using i by (rule initPhaseD(6))
  have pop: "pop (nodes ?gr) [?S] = (?S, [])"
    by (simp add: pop_def)
  have n1: "closedAt ?G ?S" "active pb ?G ?S"
    by (simp_all add: closeNode_simps active_def)
  from expand_continue [where pb = pb and s = s and st = "nodes ?G" and n = ?S
      and ol = "[]", unfolded closeNode_grid, OF wp core_init [OF i] fcond_init [OF i] n1]
  obtain s' where s': "expand (pb_finder pb) (fst (pb_end pb)) (snd (pb_end pb)) s (nodes ?G) [] ?S
        = Continue s'"
    "mainPhase pb s'" "sameShape ?G (s_grid s')" "\<forall>x. closedAt (s_grid s') x = closedAt ?G x"
    "s_paths s' = s_paths s" "s_iterations s' = s_iterations s"
    by blast
  have ss: "sameShape ?gr (s_grid s')"
    using closeNode_simps(1) s'(3) by (rule sameShape_trans)
  have "?S \<noteq> (fst (pb_end pb), snd (pb_end pb))"
    using wellPosedD(9) [OF wp] by simp
  then have pass: "findPath_pass (pb_finder pb) sx sy (fst (pb_end pb)) (snd (pb_end pb)) s = Continue s'"
    using s'(1) by (simp add: pass_nonempty ol pop Let_def)
  have cl: "closedAt (s_grid s') x = (x = ?S \<or> closedAt ?gr x)" for x
    using spec [OF s'(4), of x] by (simp add: closeNode_simps)
  from cl have "\<forall>x. closedAt (s_grid s') x = (x = ?S \<or> closedAt ?gr x)" by blast
  with pass s'(2,5,6) ss show ?thesis by blast
qed

section \<open>The first search of a call\<close>

lemma firstSearchD:
  assumes "firstSearch pb s"
  shows "s_paths s = Some []" and "s_iterations s = 1"
    and "\<forall>c. walkableCell (pb_grid pb) c \<longrightarrow> walkableCell (s_grid s) c"
    and "\<not> closedAt (s_grid s) (pb_end pb)"
  using assms unfolding firstSearch_def by simp_all

lemma firstSearch_step:
  assumes f: "firstSearch pb s" and ss: "sameShape (s_grid s) (s_grid s')"
    and cl: "\<forall>x. closedAt (s_grid s') x = (x = n \<or> closedAt (s_grid s) x)"
    and n: "n \<noteq> pb_end pb"
    and p: "s_paths s' = s_paths s" "s_iterations s' = s_iterations s"
  shows "firstSearch pb s'"
  unfolding firstSearch_def
proof (intro conjI allI impI)
  show "s_paths s' = Some []" "s_iterations s' = 1"
    using firstSearchD(1,2) [OF f] p by simp_all
  show "\<not> closedAt (s_grid s') (pb_end pb)"
    using spec [OF cl, of "pb_end pb"] n firstSearchD(4) [OF f] by simp
  fix c
  assume "walkableCell (pb_grid pb) c"
  then have "walkableCell (s_grid s) c" using firstSearchD(3) [OF f] by blast
  then show "walkableCell (s_grid s') c" using walkableCell_sameShape [OF ss] by simp
qed

text \<open>While no cell is blocked, the paths of the caller's grid are paths of the grid of the search.\<close>

lemma full_validPath:
  assumes sg: "subGrid pb gr" and fg: "freshGrid (pb_grid pb)"
    and w: "\<forall>c. walkableCell (pb_grid pb) c \<longrightarrow> walkableCell gr c"
  shows "validPath (pb_grid pb) dm path \<Longrightarrow> validPath gr dm path"
proof (induction path rule: induct_list012)
  case (3 u v rest)
  have "edge gr dm u v"
  proof (rule edge_mono [of "pb_grid pb" gr])
    show "width (pb_grid pb) = width gr" "height (pb_grid pb) = height gr"
      using sg by (simp_all add: subGrid_def)
    show "n_x (nodes (pb_grid pb) u) = n_x (nodes gr u)" "n_y (nodes (pb_grid pb) u) = n_y (nodes gr u)"
      using sg fg unfolding subGrid_def freshGrid_def by metis+
    show "\<And>c. walkableCell (pb_grid pb) c \<Longrightarrow> walkableCell gr c"
      using w by blast
    show "edge (pb_grid pb) dm u v" using 3 by simp
  qed
  with 3 show ?case by simp
qed simp_all

text \<open>When the open list is empty, the bare name \<open>bestPath\<close> is read.\<close>

lemma empty_throws:
  assumes "s_openList s = []" "s_paths s = Some ps"
  shows "findPath_pass fd sx sy ex ey s = Return (Inl ReferenceError)"
  using assms by (simp add: findPath_pass_def noPathFound_def)

lemma step_path:
  assumes "edge gr dm S E"
  shows "pathBetween gr dm S E [S, E]" and "pathCost [S, E] = stepCost S E"
  using assms by (simp_all add: pathBetween_def)

text \<open>In the first search the open list is not empty while the end can be reached.\<close>

lemma first_not_empty:
  assumes wp: "wellPosed pb" and m: "mainPhase pb s" and f: "firstSearch pb s"
    and q: "pathBetween (pb_grid pb) (diagonalMovement (pb_finder pb)) (pb_start pb) (pb_end pb) q"
  shows "s_openList s \<noteq> []"
proof
  assume e: "s_openList s = []"
  let ?gr = "s_grid s" and ?dm = "diagonalMovement (pb_finder pb)"
  have c: "core pb ?gr [] (s_dirtyNodes s)" and fc: "fcond pb ?gr (pb_start pb) []"
    using m e by (simp_all add: mainPhase_def)
  have "validPath (pb_grid pb) ?dm q" "hd q = pb_start pb" "last q = pb_end pb"
    using q by (simp_all add: pathBetween_def)
  with full_validPath [OF coreD(1) [OF c] wellPosedD(6) [OF wp] firstSearchD(3) [OF f]]
  have "validPath ?gr ?dm q" by blast
  from frontier [OF wp c fc this \<open>hd q = pb_start pb\<close>] firstSearchD(4) [OF f]
    \<open>last q = pb_end pb\<close>
  show False by simp
qed

section \<open>Starting the search again\<close>

lemma restart_nodes:
  assumes "dirty = sy # sx # flat cs"
  shows "nodes (restart gr dirty t S) c =
     (let a = (if c \<in> set cs \<and> c \<noteq> t then resetNode (nodes gr c) else nodes gr c);
          b = (if c = t then a\<lparr>n_walkable := False\<rparr> else a)
      in if c = S then b\<lparr>n_g := Num 0, n_f := Num 0, n_opened := True\<rparr> else b)"
  using assms by (auto simp: restart_def cleanUp_def cleanUp_loop_flat Let_def)

lemma restart_size:
  "width (restart gr dirty t S) = width gr" "height (restart gr dirty t S) = height gr"
  by (simp_all add: restart_def cleanUp_def Let_def)

lemma restart_fields:
  assumes "dirty = sy # sx # flat cs"
  shows "n_x (nodes (restart gr dirty t S) c) = n_x (nodes gr c)"
    and "n_y (nodes (restart gr dirty t S) c) = n_y (nodes gr c)"
    and "n_walkable (nodes (restart gr dirty t S) c) = (c \<noteq> t \<and> n_walkable (nodes gr c))"
  by (simp_all add: restart_nodes [OF assms] resetNode_def Let_def)

lemma restart_start:
  assumes "dirty = sy # sx # flat cs"
  shows "n_opened (nodes (restart gr dirty t S) S)"
    and "n_g (nodes (restart gr dirty t S) S) = Num 0"
    and "n_f (nodes (restart gr dirty t S) S) = Num 0"
    and "n_parent (nodes gr S) = None \<Longrightarrow> n_parent (nodes (restart gr dirty t S) S) = None"
  by (auto simp: restart_nodes [OF assms] resetNode_def Let_def)

lemma restart_other:
  assumes "dirty = sy # sx # flat cs" and "c \<noteq> S" "c \<noteq> t"
  shows "n_opened (nodes (restart gr dirty t S) c) = (c \<notin> set cs \<and> n_opened (nodes gr c))"
    and "n_closed (nodes (restart gr dirty t S) c) = (c \<notin> set cs \<and> n_closed (nodes gr c))"
    and "truthy (n_h (nodes (restart gr dirty t S) c)) = (c \<notin> set cs \<and> truthy (n_h (nodes gr c)))"
  using assms(2,3) by (simp_all add: restart_nodes [OF assms(1)] resetNode_def Let_def)

lemma restart_walkableCell:
  assumes "dirty = sy # sx # flat cs"
  shows "walkableCell (restart gr dirty t S) c = (c \<noteq> t \<and> walkableCell gr c)"
  by (auto simp: walkableCell_def isWalkableAt_def isInside_def restart_size restart_fields [OF assms])

lemma walkableCount_restart:
  assumes d: "dirty = sy # sx # flat cs" and t: "walkableCell gr t"
  shows "walkableCount (restart gr dirty t S) < walkableCount gr"
proof -
  have cells: "cellsOf (restart gr dirty t S) = cellsOf gr"
    by (simp add: cellsOf_def restart_size)
  have "t \<in> cellsOf gr" using t by (rule walkable_cellsOf)
  moreover have "n_walkable (nodes gr t)"
    using t by (simp add: walkableCell_def isWalkableAt_def)
  ultimately have "{c \<in> cellsOf (restart gr dirty t S). n_walkable (nodes (restart gr dirty t S) c)}
        \<subset> {c \<in> cellsOf gr. n_walkable (nodes gr c)}"
    unfolding cells restart_fields(3) [OF d] by blast
  moreover have "finite {c \<in> cellsOf gr. n_walkable (nodes gr c)}"
    using finite_cellsOf by simp
  ultimately show ?thesis
    unfolding walkableCount_def by (intro psubset_card_mono)
qed

lemma findPath_init_again:
  assumes d: "dirty = sy # sx # flat cs"
    and xy: "n_x (nodes gr S) = fst S" "n_y (nodes gr S) = snd S"
    and ins: "isInside gr (fst S) (snd S)" "isInside gr (fst E) (snd E)" "isInside gr (fst t) (snd t)"
  shows "findPath_init (fst S) (snd S) (fst E) (snd E) (cleanUp gr dirty (Some t))
           (Some paths) (Some t) (Some (Suc k)) =
         Inr \<lparr>s_grid = restart gr dirty t S, s_openList = [S], s_minFVal = NaN,
              s_atStartNode = True, s_dirtyNodes = [snd S, fst S],
              s_paths = Some paths, s_iterations = Suc k\<rparr>"
proof -
  let ?g1 = "cleanUp gr dirty (Some t)"
  have i1: "isInside ?g1 x y = isInside gr x y" for x y
    by (simp add: isInside_def cleanUp_def)
  have "n_x (nodes (restart gr dirty t S) S) = fst S" "n_y (nodes (restart gr dirty t S) S) = snd S"
    using xy by (simp_all add: restart_fields [OF d])
  then show ?thesis
    using ins
    by (simp add: findPath_init_def getNodeAt_def setWalkableAt_def i1 Let_def restart_def)
qed

lemma restart_initPhase:
  assumes wp: "wellPosed pb" and c: "core pb gr ol dirty" and t: "walkableCell gr t"
  shows "\<exists>s'. findPath_init (fst (pb_start pb)) (snd (pb_start pb)) (fst (pb_end pb)) (snd (pb_end pb))
                 (cleanUp gr dirty (Some t)) (Some paths) (Some t) (Some (Suc k)) = Inr s' \<and>
              initPhase pb s' \<and> s_paths s' = Some paths \<and>
              walkableCount (s_grid s') < walkableCount gr"
proof -
  let ?S = "pb_start pb" and ?E = "pb_end pb"
  from core_dirty [OF c] obtain cs where d: "dirty = snd ?S # fst ?S # flat cs"
    and cs: "\<forall>c. active pb gr c \<and> c \<noteq> ?S \<and> openedAt gr c \<longrightarrow> c \<in> set cs"
    by blast
  let ?G = "restart gr dirty t ?S"
  let ?s' = "\<lparr>s_grid = ?G, s_openList = [?S], s_minFVal = NaN,
              s_atStartNode = True, s_dirtyNodes = [snd ?S, fst ?S],
              s_paths = Some paths, s_iterations = Suc k\<rparr>"
  note sg = coreD(1) [OF c]
  have size: "width gr = width (pb_grid pb)" "height gr = height (pb_grid pb)"
    using sg by (simp_all add: subGrid_def)
  have xy: "n_x (nodes gr x) = fst x" "n_y (nodes gr x) = snd x" for x
    using sg unfolding subGrid_def by blast+
  have ins: "isInside gr (fst ?S) (snd ?S)" "isInside gr (fst ?E) (snd ?E)" "isInside gr (fst t) (snd t)"
    using wellPosedD(7,8) [OF wp] t
    by (simp_all add: isInside_def size walkableCell_def isWalkableAt_def)
  have init: "findPath_init (fst ?S) (snd ?S) (fst ?E) (snd ?E)
                 (cleanUp gr dirty (Some t)) (Some paths) (Some t) (Some (Suc k)) = Inr ?s'"
    using d xy ins by (rule findPath_init_again)
  have sub: "subGrid pb ?G"
    unfolding subGrid_def
  proof (intro conjI allI impI)
    show "width ?G = width (pb_grid pb)" "height ?G = height (pb_grid pb)"
      by (simp_all add: restart_size size)
    fix x
    show "n_x (nodes ?G x) = fst x" "n_y (nodes ?G x) = snd x"
      by (simp_all add: restart_fields [OF d] xy)
    assume "walkableCell ?G x"
    then have "walkableCell gr x" by (simp add: restart_walkableCell [OF d])
    then show "walkableCell (pb_grid pb) x" using sg unfolding subGrid_def by blast
  qed
  have rest: "\<not> openedAt ?G x \<and> \<not> closedAt ?G x \<and> \<not> truthy (n_h (nodes ?G x))"
    if "active pb ?G x \<and> x \<noteq> ?S" for x
  proof -
    from that have x: "x \<noteq> ?S" "x \<noteq> t" "walkableCell gr x"
      by (auto simp: active_def restart_walkableCell [OF d])
    then have a: "active pb gr x" by (simp add: active_def)
    show ?thesis
    proof (cases "x \<in> set cs")
      case True
      then show ?thesis
        by (simp add: openedAt_def closedAt_def restart_other [OF d x(1,2)])
    next
      case False
      with cs a x(1) have "\<not> openedAt gr x" by blast
      with core_unopened [OF c a x(1)] show ?thesis
        by (simp add: openedAt_def closedAt_def restart_other [OF d x(1,2)])
    qed
  qed
  have "initPhase pb ?s'"
    unfolding initPhase_def
  proof (intro conjI allI impI)
    show "subGrid pb (s_grid ?s')" using sub by simp
    show "openedAt (s_grid ?s') ?S" "n_g (nodes (s_grid ?s') ?S) = Num 0"
      "n_f (nodes (s_grid ?s') ?S) = Num 0"
      by (simp_all add: openedAt_def restart_start [OF d])
    show "n_parent (nodes (s_grid ?s') ?S) = None"
      using coreD(5) [OF c] by (simp add: restart_start(4) [OF d])
    show "s_openList ?s' = [?S]" "s_dirtyNodes ?s' = [snd ?S, fst ?S]" by simp_all
    fix x
    assume "active pb (s_grid ?s') x \<and> x \<noteq> ?S"
    then have "active pb ?G x \<and> x \<noteq> ?S" by simp
    from rest [OF this]
    show "\<not> openedAt (s_grid ?s') x" "\<not> closedAt (s_grid ?s') x" "\<not> truthy (n_h (nodes (s_grid ?s') x))"
      by simp_all
  qed
  moreover have "walkableCount (s_grid ?s') < walkableCount gr"
    using walkableCount_restart [OF d t] by simp
  ultimately show ?thesis using init by simp
qed

section \<open>The pass that pops the end node\<close>

lemma second_walkable:
  assumes "validPath gr dm p" "1 < length p"
  shows "walkableCell gr (p ! 1)"
proof -
  from assms(2) obtain a b rest where "p = a # b # rest"
    by (cases p; cases "tl p") auto
  with assms(1) have "edge gr dm a b" "p ! 1 = b" by simp_all
  then show ?thesis using edge_walkable by simp
qed

text \<open>
  The path recorded for the end node when it is popped: \<open>backtrace\<close> returns it, it is
  a path of the grid of the search, and no path of that grid costs less.
\<close>

lemma reached_path:
  assumes wp: "wellPosed pb" and m: "mainPhase pb s"
    and ne: "s_openList s \<noteq> []"
    and nE: "fst (pop (nodes (s_grid s)) (s_openList s)) = pb_end pb"
  shows "\<exists>pE. backtrace (nodes (closeNode (s_grid s) (pb_end pb)))
                 (nodes (closeNode (s_grid s) (pb_end pb)) (pb_end pb)) = Some pE \<and>
              pathBetween (s_grid s) (diagonalMovement (pb_finder pb)) (pb_start pb) (pb_end pb) pE \<and>
              1 < length pE \<and>
              (\<forall>q. pathBetween (s_grid s) (diagonalMovement (pb_finder pb)) (pb_start pb) (pb_end pb) q \<longrightarrow>
                   pathCost pE \<le> pathCost q) \<and>
              core pb (closeNode (s_grid s) (pb_end pb)) (remove1 (pb_end pb) (s_openList s))
                (s_dirtyNodes s)"
proof -
  let ?gr = "s_grid s" and ?ol = "s_openList s"
  let ?S = "pb_start pb" and ?E = "pb_end pb"
  let ?dm = "diagonalMovement (pb_finder pb)"
  let ?G = "closeNode ?gr ?E"
  let ?st = "nodes ?G"
  have c: "core pb ?gr ?ol (s_dirtyNodes s)" and fc: "fcond pb ?gr ?S []"
    using m by (simp_all add: mainPhase_def)
  note po = pop_optimal [OF wp c fc ne, unfolded nE]
  have n': "active pb ?gr ?E" "openedAt ?gr ?E" "\<not> closedAt ?gr ?E"
    using po(1) coreD(7) [OF c] by auto
  have c1: "core pb ?G (remove1 ?E ?ol) (s_dirtyNodes s)"
    using c po(1) po(3) by (rule core_close)
  note sg = coreD(1) [OF c1]
  have "active pb ?G ?E" "openedAt ?G ?E" "?E \<noteq> ?S"
    using n' wellPosedD(9) [OF wp] by (simp_all add: closeNode_active closeNode_simps)
  with c1 have "reached pb ?G ?E" by (intro core_reached)
  then obtain pE where pE: "n_g (?st ?E) = Num (pathCost pE)"
    "trail ?st ?E pE" "pathBetween ?G ?dm ?S ?E pE"
    unfolding reached_def by blast
  have bt: "backtrace ?st (?st ?E) = Some pE"
    using pE(2) by (rule trail_backtrace) (simp add: subGrid_xy [OF sg])
  have pb: "pathBetween ?gr ?dm ?S ?E pE"
    using pE(3) by (simp add: closeNode_pathBetween)
  then have "pE \<noteq> []" "hd pE = ?S" "last pE = ?E"
    by (auto simp: pathBetween_def)
  then have "length pE \<noteq> 1"
    using wellPosedD(9) [OF wp] by (cases pE) auto
  with \<open>pE \<noteq> []\<close> have len: "1 < length pE"
    by (cases pE) auto
  have gE: "gval (nodes ?gr) ?E = pathCost pE"
    using pE(1) by (simp add: gval_def closeNode_simps)
  have "\<forall>q. pathBetween ?gr ?dm ?S ?E q \<longrightarrow> pathCost pE \<le> pathCost q"
    using po(3) gE by simp
  with bt pb len c1 show ?thesis by blast
qed

lemma two_cells:
  assumes "pathBetween gr dm S E p" "length p = 2"
  shows "p = [S, E]" and "edge gr dm S E"
proof -
  from assms(2) obtain a b where "p = [a, b]"
    by (cases p; cases "tl p") auto
  with assms(1) show "p = [S, E]" and "edge gr dm S E"
    by (auto simp: pathBetween_def)
qed

text \<open>
  The pass that pops the end node: it throws at \<open>bestPath\<close> when the iterations exceed
  \<open>maxIterations\<close>, it returns a path of two cells, or it blocks the first tile of a
  longer path and starts the search again.
\<close>

lemma main_reached:
  assumes wp: "wellPosed pb" and m: "mainPhase pb s"
    and ne: "s_openList s \<noteq> []"
    and nE: "fst (pop (nodes (s_grid s)) (s_openList s)) = pb_end pb"
    and ps: "s_paths s = Some ps"
  shows "\<exists>pE. pathBetween (s_grid s) (diagonalMovement (pb_finder pb)) (pb_start pb) (pb_end pb) pE \<and>
           (\<forall>q. pathBetween (s_grid s) (diagonalMovement (pb_finder pb)) (pb_start pb) (pb_end pb) q \<longrightarrow>
                pathCost pE \<le> pathCost q) \<and>
           (if nlt (maxIterations (pb_finder pb)) (Num (real (s_iterations s + 1)))
            then findPath_pass (pb_finder pb) (fst (pb_start pb)) (snd (pb_start pb))
                   (fst (pb_end pb)) (snd (pb_end pb)) s = Return (Inl ReferenceError)
            else if length pE = 2
            then findPath_pass (pb_finder pb) (fst (pb_start pb)) (snd (pb_start pb))
                   (fst (pb_end pb)) (snd (pb_end pb)) s = Return (Inr pE)
            else (\<exists>s'. findPath_pass (pb_finder pb) (fst (pb_start pb)) (snd (pb_start pb))
                          (fst (pb_end pb)) (snd (pb_end pb)) s = Continue s' \<and>
                        initPhase pb s' \<and> s_paths s' \<noteq> None \<and>
                        walkableCount (s_grid s') < walkableCount (s_grid s)))"
proof -
  let ?gr = "s_grid s" and ?ol = "s_openList s"
  let ?S = "pb_start pb" and ?E = "pb_end pb"
  let ?fd = "pb_finder pb" and ?dm = "diagonalMovement (pb_finder pb)"
  let ?G = "closeNode ?gr ?E"
  let ?st = "nodes ?G"
  let ?pass = "findPath_pass ?fd (fst ?S) (snd ?S) (fst ?E) (snd ?E) s"
  from reached_path [OF wp m ne nE] obtain pE where
    bt: "backtrace ?st (?st ?E) = Some pE"
    and pb: "pathBetween ?gr ?dm ?S ?E pE" and len: "1 < length pE"
    and opt: "\<forall>q. pathBetween ?gr ?dm ?S ?E q \<longrightarrow> pathCost pE \<le> pathCost q"
    and c1: "core pb ?G (remove1 ?E ?ol) (s_dirtyNodes s)"
    by blast
  let ?paths = "ps @ [(?st, ?st ?E)]"
  have pass: "?pass = reachedEnd ?fd (fst ?S) (snd ?S) (fst ?E) (snd ?E) s ?st ?E"
    using nE by (simp add: pass_nonempty [OF ne] Let_def)
  have "if nlt (maxIterations ?fd) (Num (real (s_iterations s + 1)))
        then ?pass = Return (Inl ReferenceError)
        else if length pE = 2 then ?pass = Return (Inr pE)
        else (\<exists>s'. ?pass = Continue s' \<and> initPhase pb s' \<and> s_paths s' \<noteq> None \<and>
                    walkableCount (s_grid s') < walkableCount ?gr)"
  proof (cases "nlt (maxIterations ?fd) (Num (real (s_iterations s + 1)))")
    case True
    then show ?thesis
      using ps unfolding pass by (simp add: reachedEnd_def Let_def)
  next
    case more: False
    show ?thesis
    proof (cases "length pE = 2")
      case True
      then show ?thesis
        using more ps bt unfolding pass by (simp add: reachedEnd_def Let_def)
    next
      case False
      let ?t = "pE ! 1"
      have "pathBetween ?G ?dm ?S ?E pE"
        using pb by (simp add: closeNode_pathBetween)
      then have "validPath ?G ?dm pE"
        by (simp add: pathBetween_def)
      then have t: "walkableCell ?G ?t" using len by (rule second_walkable)
      from restart_initPhase [OF wp c1 t, of ?paths "s_iterations s"]
      obtain s' where s': "findPath_init (fst ?S) (snd ?S) (fst ?E) (snd ?E)
                 (cleanUp ?G (s_dirtyNodes s) (Some ?t)) (Some ?paths) (Some ?t)
                 (Some (Suc (s_iterations s))) = Inr s'"
        "initPhase pb s'" "s_paths s' = Some ?paths" "walkableCount (s_grid s') < walkableCount ?G"
        by blast
      have "?pass = Continue s'"
        using more False len ps bt s'(1) unfolding pass
        by (simp add: reachedEnd_def Let_def closeNode_grid)
      moreover have "walkableCount (s_grid s') < walkableCount ?gr"
        using s'(4) walkableCount_sameShape [OF closeNode_simps(1), of ?gr ?E] by simp
      ultimately have "\<exists>s'. ?pass = Continue s' \<and> initPhase pb s' \<and> s_paths s' \<noteq> None \<and>
                    walkableCount (s_grid s') < walkableCount ?gr"
        using s'(2,3) by auto
      then show ?thesis using more False by simp
    qed
  qed
  with pb opt show ?thesis by blast
qed

section \<open>What the search returns\<close>

lemma wf_progress: "wf progress"
  unfolding progress_def by (intro wf_inv_image wf_lex_prod wf_less_than)

lemma loop_return:
  "findPath_pass fd sx sy ex ey s = Return r \<Longrightarrow> findPath_loop fd sx sy ex ey s = Some r"
  by (subst findPath_loop.simps) simp

lemma loop_continue:
  "findPath_pass fd sx sy ex ey s = Continue s' \<Longrightarrow>
   findPath_loop fd sx sy ex ey s = findPath_loop fd sx sy ex ey s'"
  by (subst findPath_loop.simps) simp

text \<open>
  When the end is not a neighbour of the start, every search ends at the bare name
  \<open>bestPath\<close>: no path of two cells is found, so each path found starts another search,
  until the iterations exceed \<open>maxIterations\<close> or the open list is empty.
\<close>

lemma distant_loop:
  assumes wp: "wellPosed pb"
    and far: "\<not> edge (pb_grid pb) (diagonalMovement (pb_finder pb)) (pb_start pb) (pb_end pb)"
  shows "mainPhase pb s \<Longrightarrow> s_paths s \<noteq> None \<Longrightarrow>
         findPath_loop (pb_finder pb) (fst (pb_start pb)) (snd (pb_start pb))
           (fst (pb_end pb)) (snd (pb_end pb)) s = Some (Inl ReferenceError)"
proof (induction s rule: wf_induct_rule [OF wf_progress])
  case (1 s)
  let ?loop = "findPath_loop (pb_finder pb) (fst (pb_start pb)) (snd (pb_start pb))
                 (fst (pb_end pb)) (snd (pb_end pb))"
  let ?pass = "findPath_pass (pb_finder pb) (fst (pb_start pb)) (snd (pb_start pb))
                 (fst (pb_end pb)) (snd (pb_end pb))"
  let ?dm = "diagonalMovement (pb_finder pb)"
  note m = "1.prems"(1)
  from "1.prems"(2) obtain ps where ps: "s_paths s = Some ps" by blast
  show ?case
  proof (cases "s_openList s = []")
    case True
    from empty_throws [OF True ps] show ?thesis by (rule loop_return)
  next
    case ne: False
    show ?thesis
    proof (cases "fst (pop (nodes (s_grid s)) (s_openList s)) = pb_end pb")
      case False
      from main_expand [OF wp m ne False] obtain s' where s': "?pass s = Continue s'"
        "mainPhase pb s'" "sameShape (s_grid s) (s_grid s')" "s_paths s' = s_paths s"
        "unclosedCount (s_grid s') < unclosedCount (s_grid s)"
        by blast
      have "(s', s) \<in> progress"
        using s'(5) walkableCount_sameShape [OF s'(3)] by (simp add: progress_def)
      from "1.IH" [OF this s'(2)] s'(4) ps loop_continue [OF s'(1)] show ?thesis by simp
    next
      case True
      from main_reached [OF wp m ne True ps] obtain pE where
        pE: "pathBetween (s_grid s) ?dm (pb_start pb) (pb_end pb) pE"
        and alt: "if nlt (maxIterations (pb_finder pb)) (Num (real (s_iterations s + 1)))
            then ?pass s = Return (Inl ReferenceError)
            else if length pE = 2 then ?pass s = Return (Inr pE)
            else (\<exists>s'. ?pass s = Continue s' \<and> initPhase pb s' \<and> s_paths s' \<noteq> None \<and>
                        walkableCount (s_grid s') < walkableCount (s_grid s))"
        by blast
      have c: "core pb (s_grid s) (s_openList s) (s_dirtyNodes s)"
        using m by (simp add: mainPhase_def)
      have l2: "length pE \<noteq> 2"
      proof
        assume "length pE = 2"
        with pE have "edge (s_grid s) ?dm (pb_start pb) (pb_end pb)" by (rule two_cells(2))
        with coreD(1) [OF c] wellPosedD(6) [OF wp]
        have "edge (pb_grid pb) ?dm (pb_start pb) (pb_end pb)" by (rule subGrid_edge)
        with far show False by simp
      qed
      show ?thesis
      proof (cases "nlt (maxIterations (pb_finder pb)) (Num (real (s_iterations s + 1)))")
        case True
        with alt have "?pass s = Return (Inl ReferenceError)" by simp
        then show ?thesis by (rule loop_return)
      next
        case False
        with alt l2 obtain s' where s': "?pass s = Continue s'" "initPhase pb s'"
          "s_paths s' \<noteq> None" "walkableCount (s_grid s') < walkableCount (s_grid s)"
          by auto
        from init_expand [OF wp s'(2)] obtain s'' where s'': "?pass s' = Continue s''"
          "mainPhase pb s''" "sameShape (s_grid s') (s_grid s'')" "s_paths s'' = s_paths s'"
          by blast
        have "(s'', s) \<in> progress"
          using s'(4) walkableCount_sameShape [OF s''(3)] by (simp add: progress_def)
        from "1.IH" [OF this s''(2)] s''(4) s'(3)
        have "?loop s'' = Some (Inl ReferenceError)" by simp
        then show ?thesis
          using loop_continue [OF s'(1)] loop_continue [OF s''(1)] by simp
      qed
    qed
  qed
qed

text \<open>
  When the end is a neighbour of the start, the first search pops the end node with the
  path of two cells, which is returned unless already the second iteration exceeds
  \<open>maxIterations\<close>.
\<close>

lemma adjacent_loop:
  assumes wp: "wellPosed pb"
    and near: "edge (pb_grid pb) (diagonalMovement (pb_finder pb)) (pb_start pb) (pb_end pb)"
  shows "mainPhase pb s \<Longrightarrow> firstSearch pb s \<Longrightarrow>
         findPath_loop (pb_finder pb) (fst (pb_start pb)) (snd (pb_start pb))
           (fst (pb_end pb)) (snd (pb_end pb)) s =
         (if nlt (maxIterations (pb_finder pb)) (Num 2) then Some (Inl ReferenceError)
          else Some (Inr [pb_start pb, pb_end pb]))"
proof (induction s rule: wf_induct_rule [OF wf_progress])
  case (1 s)
  let ?loop = "findPath_loop (pb_finder pb) (fst (pb_start pb)) (snd (pb_start pb))
                 (fst (pb_end pb)) (snd (pb_end pb))"
  let ?pass = "findPath_pass (pb_finder pb) (fst (pb_start pb)) (snd (pb_start pb))
                 (fst (pb_end pb)) (snd (pb_end pb))"
  let ?dm = "diagonalMovement (pb_finder pb)"
  let ?S = "pb_start pb" and ?E = "pb_end pb"
  note m = "1.prems"(1) and f = "1.prems"(2)
  note q = step_path [OF near]
  have ne: "s_openList s \<noteq> []"
    using wp m f q(1) by (rule first_not_empty)
  show ?case
  proof (cases "fst (pop (nodes (s_grid s)) (s_openList s)) = ?E")
    case False
    from main_expand [OF wp m ne False] obtain s' where s': "?pass s = Continue s'"
      "mainPhase pb s'" "sameShape (s_grid s) (s_grid s')"
      "\<forall>x. closedAt (s_grid s') x =
             (x = fst (pop (nodes (s_grid s)) (s_openList s)) \<or> closedAt (s_grid s) x)"
      "s_paths s' = s_paths s" "s_iterations s' = s_iterations s"
      "unclosedCount (s_grid s') < unclosedCount (s_grid s)"
      by blast
    have "(s', s) \<in> progress"
      using s'(7) walkableCount_sameShape [OF s'(3)] by (simp add: progress_def)
    moreover have "firstSearch pb s'"
      using f s'(3,4) False s'(5,6) by (rule firstSearch_step)
    ultimately show ?thesis
      using "1.IH" [OF _ s'(2)] loop_continue [OF s'(1)] by simp
  next
    case True
    from main_reached [OF wp m ne True firstSearchD(1) [OF f]] obtain pE where
      pE: "pathBetween (s_grid s) ?dm ?S ?E pE"
      and opt: "\<forall>q. pathBetween (s_grid s) ?dm ?S ?E q \<longrightarrow> pathCost pE \<le> pathCost q"
      and alt: "if nlt (maxIterations (pb_finder pb)) (Num (real (s_iterations s + 1)))
          then ?pass s = Return (Inl ReferenceError)
          else if length pE = 2 then ?pass s = Return (Inr pE)
          else (\<exists>s'. ?pass s = Continue s' \<and> initPhase pb s' \<and> s_paths s' \<noteq> None \<and>
                      walkableCount (s_grid s') < walkableCount (s_grid s))"
      by blast
    have c: "core pb (s_grid s) (s_openList s) (s_dirtyNodes s)"
      using m by (simp add: mainPhase_def)
    have it: "Num (real (s_iterations s + 1)) = Num 2"
      using firstSearchD(2) [OF f] by simp
    have "validPath (s_grid s) ?dm [?S, ?E]"
      using full_validPath [OF coreD(1) [OF c] wellPosedD(6) [OF wp] firstSearchD(3) [OF f], of ?dm "[?S, ?E]"]
        q(1) by (simp add: pathBetween_def)
    then have "pathBetween (s_grid s) ?dm ?S ?E [?S, ?E]" by (simp add: pathBetween_def)
    with opt have "pathCost pE \<le> pathCost [?S, ?E]" by blast
    also have "\<dots> \<le> sqrt 2" using stepCost_le_sqrt2 by simp
    also have "\<dots> < 2" using real_sqrt_less_mono [of 2 4] by simp
    finally have "pathCost pE < 2" .
    then have "\<not> 3 \<le> length pE" using pathCost_two_steps [of pE] by auto
    moreover have "pE \<noteq> []" "hd pE = ?S" "last pE = ?E"
      using pE by (auto simp: pathBetween_def)
    then have "length pE \<noteq> 0" "length pE \<noteq> 1"
      using wellPosedD(9) [OF wp] by (cases pE; auto)+
    ultimately have l2: "length pE = 2" by linarith
    with pE have "pE = [?S, ?E]" by (rule two_cells(1))
    with alt l2 show ?thesis
      unfolding it by (auto intro: loop_return)
  qed
qed

lemma first_init:
  assumes wp: "wellPosed pb"
  shows "\<exists>s. findPath_init (fst (pb_start pb)) (snd (pb_start pb)) (fst (pb_end pb)) (snd (pb_end pb))
               (pb_grid pb) None None None = Inr s \<and> initPhase pb s \<and> firstSearch pb s"
proof -
  let ?S = "pb_start pb" and ?E = "pb_end pb" and ?g = "pb_grid pb"
  let ?st = "(nodes ?g)(?S := (nodes ?g ?S)\<lparr>n_g := Num 0, n_f := Num 0, n_opened := True\<rparr>)"
  let ?s = "\<lparr>s_grid = ?g\<lparr>nodes := ?st\<rparr>, s_openList = [?S], s_minFVal = NaN,
             s_atStartNode = True, s_dirtyNodes = [snd ?S, fst ?S],
             s_paths = Some [], s_iterations = 1\<rparr>"
  note fg = wellPosedD(6) [OF wp]
  have f: "n_x (nodes ?g c) = fst c" "n_y (nodes ?g c) = snd c" "\<not> n_opened (nodes ?g c)"
    "\<not> n_closed (nodes ?g c)" "\<not> truthy (n_h (nodes ?g c))" "n_parent (nodes ?g c) = None" for c
    using fg unfolding freshGrid_def by blast+
  have init: "findPath_init (fst ?S) (snd ?S) (fst ?E) (snd ?E) ?g None None None = Inr ?s"
    using wellPosedD(7,8) [OF wp] by (simp add: findPath_init_def getNodeAt_def Let_def f)
  have w: "walkableCell (?g\<lparr>nodes := ?st\<rparr>) c = walkableCell ?g c" for c
    by (simp add: walkableCell_def isWalkableAt_def isInside_def)
  have xy: "n_x (?st c) = fst c \<and> n_y (?st c) = snd c" for c
    by (simp add: f)
  have "subGrid pb (?g\<lparr>nodes := ?st\<rparr>)"
    unfolding subGrid_def w using xy by simp
  then have "initPhase pb ?s"
    unfolding initPhase_def
    by (simp add: openedAt_def closedAt_def active_def w f)
  moreover have "firstSearch pb ?s"
    unfolding firstSearch_def using wellPosedD(9) [OF wp]
    by (simp add: w closedAt_def f)
  ultimately show ?thesis using init by blast
qed

text \<open>
  On a fresh grid, with a consistent heuristic, weight 1 and neither \<open>avoidStaircase\<close>
  nor \<open>breakTies\<close> enabled, a search from a start to a different end returns a path
  only when the end is a neighbour of the start, the path of these two cells. Every other
  search throws the ReferenceError of the bare name \<open>bestPath\<close>, whether or not the end
  can be reached.
\<close>

lemma findPath_adjacent_or_throws:
  assumes wp: "wellPosed pb"
  shows "findPath (pb_finder pb) (fst (pb_start pb)) (snd (pb_start pb))
           (fst (pb_end pb)) (snd (pb_end pb)) (pb_grid pb) =
         (if edge (pb_grid pb) (diagonalMovement (pb_finder pb)) (pb_start pb) (pb_end pb) \<and>
             \<not> nlt (maxIterations (pb_finder pb)) (Num 2)
          then Some (Inr [pb_start pb, pb_end pb]) else Some (Inl ReferenceError))"
proof -
  let ?loop = "findPath_loop (pb_finder pb) (fst (pb_start pb)) (snd (pb_start pb))
                 (fst (pb_end pb)) (snd (pb_end pb))"
  from first_init [OF wp] obtain s where s: "findPath_init (fst (pb_start pb)) (snd (pb_start pb))
      (fst (pb_end pb)) (snd (pb_end pb)) (pb_grid pb) None None None = Inr s"
    "initPhase pb s" "firstSearch pb s"
    by blast
  from init_expand [OF wp s(2)] obtain s' where s': "findPath_pass (pb_finder pb)
      (fst (pb_start pb)) (snd (pb_start pb)) (fst (pb_end pb)) (snd (pb_end pb)) s = Continue s'"
    "mainPhase pb s'" "sameShape (s_grid s) (s_grid s')"
    "\<forall>x. closedAt (s_grid s') x = (x = pb_start pb \<or> closedAt (s_grid s) x)"
    "s_paths s' = s_paths s" "s_iterations s' = s_iterations s"
    by blast
  have f': "firstSearch pb s'"
    using s(3) s'(3,4) wellPosedD(9) [OF wp] s'(5,6) by (rule firstSearch_step)
  have eq: "findPath (pb_finder pb) (fst (pb_start pb)) (snd (pb_start pb))
           (fst (pb_end pb)) (snd (pb_end pb)) (pb_grid pb) = ?loop s'"
    using s(1) loop_continue [OF s'(1)] by (simp add: findPath_def)
  show ?thesis
  proof (cases "edge (pb_grid pb) (diagonalMovement (pb_finder pb)) (pb_start pb) (pb_end pb)")
    case True
    from adjacent_loop [OF wp True s'(2) f'] True show ?thesis
      unfolding eq by simp
  next
    case False
    have "s_paths s' \<noteq> None" using firstSearchD(1) [OF f'] by simp
    from distant_loop [OF wp False s'(2) this] False show ?thesis
      unfolding eq by simp
  qed
qed

section \<open>The default finder\<close>

lemma manhattan_consistent:
  assumes "freshGrid gr"
  shows "consistent gr Never e manhattanDistance"
  unfolding consistent_def
proof (intro allI impI)
  fix u v
  assume "edge gr Never u v"
  moreover have "n_x (nodes gr u) = fst u" "n_y (nodes gr u) = snd u"
    using assms unfolding freshGrid_def by blast+
  ultimately have "(v = (fst u, snd u - 1) \<or> v = (fst u + 1, snd u) \<or>
                    v = (fst u, snd u + 1) \<or> v = (fst u - 1, snd u))"
    unfolding edge_def getNeighbors_mem by (auto simp: diagonalAllowed_def)
  then show "hAt manhattanDistance e u \<le> stepCost u v + hAt manhattanDistance e v"
    by (auto simp: hAt_def manhattanDistance_def stepCost_def)
qed

lemma default_wellPosed:
  assumes "freshGrid gr" "isInside gr (fst S) (snd S)" "isInside gr (fst E) (snd E)" "S \<noteq> E"
  shows "wellPosed \<lparr>pb_finder = AStarFinder noOptions, pb_hf = manhattanDistance,
                     pb_start = S, pb_end = E, pb_grid = gr\<rparr>"
proof -
  have "diagonalMovement (AStarFinder noOptions) = Never"
    by (simp add: finder_defs)
  moreover have "heuristicIs (AStarFinder noOptions) manhattanDistance"
    by (simp add: heuristicIs_def finder_defs manhattanDistance_def nadd.simps)
  moreover have "weight (AStarFinder noOptions) = Num 1"
    "\<not> ftruthy (avoidStaircase (AStarFinder noOptions))"
    "\<not> ftruthy (breakTies (AStarFinder noOptions))"
    by (simp_all add: finder_defs)
  ultimately show ?thesis
    using assms manhattan_consistent [OF assms(1)] by (simp add: wellPosed_def)
qed

text \<open>
  The default finder, \<open>new AStarFinder()\<close>, on a fresh grid: its \<open>maxIterations\<close> is
  \<open>NaN\<close>, which no number of iterations exceeds.
\<close>

lemma findPath_default:
  assumes "freshGrid gr" "isInside gr (fst S) (snd S)" "isInside gr (fst E) (snd E)" "S \<noteq> E"
  shows "findPath (AStarFinder noOptions) (fst S) (snd S) (fst E) (snd E) gr =
         (if edge gr Never S E then Some (Inr [S, E]) else Some (Inl ReferenceError))"
proof -
  have "maxIterations (AStarFinder noOptions) = NaN" "diagonalMovement (AStarFinder noOptions) = Never"
    by (simp_all add: finder_defs)
  with findPath_adjacent_or_throws [OF default_wellPosed [OF assms]] show ?thesis
    by simp
qed

section \<open>The search for a path of three cells or more\<close>

text \<open>
  C1. The default finder has the Manhattan heuristic, weight 1 and no diagonal steps. On
  the row of three walkable cells it is asked for the path from the left to the right
  cell, and on the square whose centre is a wall for the path from one corner to the
  opposite one. A path exists in both grids, and \<open>findPath\<close> returns none: each
  search finds a path, blocks its first tile and searches again, until the open list is
  empty, and then it throws the ReferenceError of the bare name \<open>bestPath\<close> at line
  316.
\<close>

theorem findPath_throws_at_bestPath:
  "findPath (AStarFinder noOptions) 0 0 2 0 openRow = Some (Inl ReferenceError) \<and>
   pathBetween openRow Never (0, 0) (2, 0) [(0, 0), (1, 0), (2, 0)] \<and>
   findPath (AStarFinder noOptions) 0 0 2 2 ringGrid = Some (Inl ReferenceError) \<and>
   pathBetween ringGrid Never (0, 0) (2, 2) [(0, 0), (1, 0), (2, 0), (2, 1), (2, 2)] \<and>
   weight (AStarFinder noOptions) = Num 1 \<and> heuristic (AStarFinder noOptions) = manhattan \<and>
   diagonalMovement (AStarFinder noOptions) = Never"
proof -
  have "findPath (AStarFinder noOptions) 0 0 2 0 openRow = Some (Inl ReferenceError)"
    by (simp add: findPath_defs grid_defs util_defs finder_defs openRow_def)
  moreover have "findPath (AStarFinder noOptions) 0 0 2 2 ringGrid = Some (Inl ReferenceError)"
    by (simp add: findPath_defs grid_defs util_defs finder_defs ringGrid_def)
  moreover have "pathBetween openRow Never (0, 0) (2, 0) [(0, 0), (1, 0), (2, 0)]"
    by (simp add: pathBetween_def edge_def openRow_def grid_defs)
  moreover have "pathBetween ringGrid Never (0, 0) (2, 2) [(0, 0), (1, 0), (2, 0), (2, 1), (2, 2)]"
    by (simp add: pathBetween_def edge_def ringGrid_def grid_defs)
  moreover have "weight (AStarFinder noOptions) = Num 1" "heuristic (AStarFinder noOptions) = manhattan"
    "diagonalMovement (AStarFinder noOptions) = Never"
    by (simp_all add: finder_defs)
  ultimately show ?thesis by simp
qed

end
